theory Spec2Isabelle
  imports Main
begin

section \<open>Events, filters and subscription options\<close>

text \<open>
  The Nostr event of \<^verbatim>\<open>src/engine2/model\<close>. \<^verbatim>\<open>content\<close> may be absent on the wire
  (\<^verbatim>\<open>event.content || ""\<close> defaults it). The derived field \<^verbatim>\<open>seen_on\<close> is not a field
  of the model's event: in the source it is the very array that the subscription stores in
  its \<^verbatim>\<open>seen\<close> map under the event's id, so its current value is read from that map.
\<close>

record event =
  id_ev :: string
  pubkey :: string
  created_at :: int
  kind :: int
  tags :: "string list list"
  content :: "string option"
  sig :: string

text \<open>
  A filter carries the \<^verbatim>\<open>since\<close> cursor that the persistent loop rewrites; its other
  clauses (kinds, authors, tag constraints, ...) are kept as data and interpreted by the
  matching function of the protocol library.
\<close>

record filter =
  kinds :: "int list option"
  tag_e :: "string list option"
  since :: "int option"

text \<open>
  Collaborators that are imported by the sources but not defined in them. They are
  parameters of the model:
  \<^item> \<^verbatim>\<open>verifySignature\<close> (nostr-tools); \<open>None\<close> stands for a thrown exception, which
    \<^verbatim>\<open>tryFunc\<close> turns into a falsy value;
  \<^item> \<^verbatim>\<open>matchOther\<close>: the clauses of nostr-tools' \<^verbatim>\<open>matchFilter\<close> other than \<^verbatim>\<open>since\<close>;
  \<^item> \<^verbatim>\<open>isShareableRelay\<close> (\<^verbatim>\<open>src/util/nostr\<close>);
  \<^item> \<^verbatim>\<open>normalizeUrl\<close>: the URL equivalence used when relay URLs are resolved;
  \<^item> \<^verbatim>\<open>wellFormed\<close>: what the transport accepts as a filter;
  \<^item> \<^verbatim>\<open>getMeta\<close> and \<^verbatim>\<open>tag_relays\<close>: \<^verbatim>\<open>Tags.from(e).getMeta(k)\<close> and
    \<^verbatim>\<open>Tags.from(e).relays()\<close> (\<^verbatim>\<open>src/util/nostr\<close>);
  \<^item> \<^verbatim>\<open>json_name\<close>: whether \<^verbatim>\<open>tryJson(() => JSON.parse(content))?.name\<close> is truthy;
  \<^item> \<^verbatim>\<open>throws\<close>: whether the listener with a given number throws when it is called with
    a given argument. A listener is an opaque callback: it returns or throws, and it does
    not call back into the subscription.
\<close>

datatype payload = PEvent event | PUrl string | PEvents "event list"

record env =
  verifySignature :: "event \<Rightarrow> bool option"
  matchOther :: "filter \<Rightarrow> event \<Rightarrow> bool"
  isShareableRelay :: "string \<Rightarrow> bool"
  normalizeUrl :: "string \<Rightarrow> string"
  wellFormed :: "filter \<Rightarrow> bool"
  getMeta :: "event \<Rightarrow> string \<Rightarrow> string option"
  tag_relays :: "event \<Rightarrow> string list"
  json_name :: "string \<Rightarrow> bool"
  throws :: "nat \<Rightarrow> payload \<Rightarrow> bool"

text \<open>
  \<^verbatim>\<open>SubscribeOpts\<close>: the \<^verbatim>\<open>SubscriptionOpts\<close> together with the three optional callbacks.
  A callback is identified by a number.
\<close>

record opts =
  relays :: "string list"
  filters :: "filter list"
  timeout :: "int option"
  shouldProject :: "bool option"
  onEvent_cb :: "nat option"
  onEose_cb :: "nat option"
  onClose_cb :: "nat option"

section \<open>The Subscription class\<close>

text \<open>
  Every call that leaves the class is recorded, in order, in the subscription's trace:
  timers, the transport, the signature check, the filter check, the logger, the projection
  registry, \<^verbatim>\<open>emit\<close> and the listeners it invokes, the deferred result, and an
  exception that leaves a method.
\<close>

datatype effect =
    SetTimeout int
  | ExecutorSubscribe "string list" "filter list"
  | VerifySignature event
  | MatchFilters event
  | Warn string event
  | Info string
  | ProjectionsPush event
  | Emit string payload
  | Invoke nat string payload
  | Resolve "event list"
  | Unsubscribe
  | Cleanup
  | RemoveAllListeners
  | Throw string

text \<open>
  The fields of the class. \<^verbatim>\<open>result\<close> is the deferred completion value (\<open>None\<close> while
  pending), \<^verbatim>\<open>eose\<close> the JavaScript Set in insertion order, \<^verbatim>\<open>executor\<close> the URLs the
  executor was built for (\<open>None\<close> before \<^verbatim>\<open>start\<close> sets it), \<^verbatim>\<open>sub\<close> whether the transport
  handle is non-null, \<^verbatim>\<open>listeners\<close> the EventEmitter's registrations. The random
  \<^verbatim>\<open>id\<close> of the class is used by no method and is left out.
\<close>

record subscription =
  opts_of :: opts
  opened :: int
  closed :: "int option"
  result :: "event list option"
  events :: "event list"
  seen :: "string \<rightharpoonup> string list"
  eose :: "string list"
  executor :: "string list option"
  sub :: bool
  listeners :: "(string \<times> nat) list"
  trace :: "effect list"

text \<open>JavaScript truthiness of an optional number: \<^verbatim>\<open>null\<close>, \<^verbatim>\<open>undefined\<close> and 0 are falsy.\<close>

definition truthy_num :: "int option \<Rightarrow> bool" where
  "truthy_num v = (case v of None \<Rightarrow> False | Some n \<Rightarrow> n \<noteq> 0)"

definition is_closed :: "subscription \<Rightarrow> bool" where
  "is_closed s = truthy_num (closed s)"

definition log_effect :: "effect \<Rightarrow> subscription \<Rightarrow> subscription" where
  "log_effect x s = s\<lparr>trace := trace s @ [x]\<rparr>"

text \<open>
  \<^verbatim>\<open>EventEmitter.emit\<close>: the listeners registered under the name are called in the order
  of registration. An exception of a listener leaves \<^verbatim>\<open>emit\<close> at once, so the listeners
  after the first one that throws are not called, and the method that called \<^verbatim>\<open>emit\<close>
  is left as well.
\<close>

fun invoked :: "env \<Rightarrow> payload \<Rightarrow> nat list \<Rightarrow> nat list" where
  "invoked env p [] = []"
| "invoked env p (c # cs) = c # (if throws env c p then [] else invoked env p cs)"

definition registered_under :: "string \<Rightarrow> subscription \<Rightarrow> nat list" where
  "registered_under name s = map snd (filter (\<lambda>l. fst l = name) (listeners s))"

definition emit_throws :: "env \<Rightarrow> string \<Rightarrow> payload \<Rightarrow> subscription \<Rightarrow> bool" where
  "emit_throws env name p s = list_ex (\<lambda>c. throws env c p) (registered_under name s)"

definition emit_effects :: "env \<Rightarrow> string \<Rightarrow> payload \<Rightarrow> subscription \<Rightarrow> effect list" where
  "emit_effects env name p s =
     Emit name p # map (\<lambda>c. Invoke c name p) (invoked env p (registered_under name s)) @
     (if emit_throws env name p s then [Throw ''listener''] else [])"

definition emit :: "env \<Rightarrow> string \<Rightarrow> payload \<Rightarrow> subscription \<Rightarrow> subscription" where
  "emit env name p s = s\<lparr>trace := trace s @ emit_effects env name p s\<rparr>"

text \<open>\<^verbatim>\<open>defer().resolve\<close>: only the first resolution settles the promise.\<close>

definition resolve :: "event list \<Rightarrow> subscription \<Rightarrow> subscription" where
  "resolve v s =
     log_effect (Resolve v)
       (s\<lparr>result := (case result s of None \<Rightarrow> Some v | Some r \<Rightarrow> Some r)\<rparr>)"

text \<open>
  \<^verbatim>\<open>close\<close>, lines 99-108. \<open>now\<close> is the reading of \<^verbatim>\<open>Date.now()\<close>. A null
  \<^verbatim>\<open>this.sub\<close> or \<^verbatim>\<open>this.executor\<close> makes the method throw after the fields before the
  failing call were written, and so does a listener of \<^verbatim>\<open>close\<close> that throws: then the
  listeners are not released.
\<close>

definition close :: "env \<Rightarrow> int \<Rightarrow> subscription \<Rightarrow> subscription" where
  "close env now s =
     (if is_closed s then s
      else
        let s1 = s\<lparr>closed := Some now\<rparr>;
            s2 = resolve (events s1) s1
        in if \<not> sub s2 then log_effect (Throw ''TypeError'') s2
           else
             let s3 = log_effect Unsubscribe s2
             in if executor s3 = None then log_effect (Throw ''TypeError'') s3
                else
                  let s4 = log_effect Cleanup s3;
                      s5 = emit env ''close'' (PEvents (events s4)) s4
                  in if emit_throws env ''close'' (PEvents (events s4)) s4 then s5
                     else log_effect RemoveAllListeners (s5\<lparr>listeners := []\<rparr>))"

text \<open>
  nostr-tools' \<^verbatim>\<open>matchFilters\<close>: some filter matches; a filter's \<^verbatim>\<open>since\<close> clause is
  \<^verbatim>\<open>if (filter.since && event.created_at < filter.since) return false\<close>.
\<close>

definition since_ok :: "filter \<Rightarrow> event \<Rightarrow> bool" where
  "since_ok f e = (case since f of None \<Rightarrow> True | Some c \<Rightarrow> c = 0 \<or> c \<le> created_at e)"

definition matchFilter :: "env \<Rightarrow> filter \<Rightarrow> event \<Rightarrow> bool" where
  "matchFilter env f e = (matchOther env f e \<and> since_ok f e)"

definition matchFilters :: "env \<Rightarrow> filter list \<Rightarrow> event \<Rightarrow> bool" where
  "matchFilters env fs e = list_ex (\<lambda>f. matchFilter env f e) fs"

text \<open>\<^verbatim>\<open>event.content = event.content || ""\<close>.\<close>

definition default_content :: "event \<Rightarrow> event" where
  "default_content e = e\<lparr>content := Some (case content e of None \<Rightarrow> [] | Some c \<Rightarrow> c)\<rparr>"

text \<open>
  \<^verbatim>\<open>onEvent\<close>, lines 53-85. \<^verbatim>\<open>this.seen.get(event.id)\<close> is an array when the id was
  seen, and every array is truthy, also the empty one.
\<close>

definition onEvent :: "env \<Rightarrow> string \<Rightarrow> event \<Rightarrow> subscription \<Rightarrow> subscription" where
  "onEvent env url event0 s =
     (case seen s (id_ev event0) of
        Some seen_on \<Rightarrow>
          if url \<notin> set seen_on \<and> isShareableRelay env url
          then s\<lparr>seen := (seen s)(id_ev event0 \<mapsto> seen_on @ [url])\<rparr>
          else s
      | None \<Rightarrow>
          let event = default_content event0;
              s1 = s\<lparr>seen := (seen s)(id_ev event \<mapsto>
                       (if isShareableRelay env url then [url] else []))\<rparr>;
              s2 = log_effect (VerifySignature event) s1
          in if verifySignature env event \<noteq> Some True
             then log_effect (Warn ''Signature verification failed'' event) s2
             else
               let s3 = log_effect (MatchFilters event) s2
               in if \<not> matchFilters env (filters (opts_of s3)) event
                  then log_effect (Warn ''Event failed to match filter'' event) s3
                  else
                    let s4 = (if shouldProject (opts_of s3) \<noteq> Some False
                              then log_effect (ProjectionsPush event) s3 else s3)
                    in emit env ''event'' (PEvent event) s4)"

text \<open>\<^verbatim>\<open>this.eose.add(url)\<close> on the Set.\<close>

definition add_eose :: "string \<Rightarrow> subscription \<Rightarrow> subscription" where
  "add_eose url s = s\<lparr>eose := (if url \<in> set (eose s) then eose s else eose s @ [url])\<rparr>"

text \<open>
  \<^verbatim>\<open>onEose\<close>, lines 87-97. \<open>now\<close> is what \<^verbatim>\<open>Date.now()\<close> reads if \<^verbatim>\<open>close\<close> runs. A
  listener of \<^verbatim>\<open>eose\<close> that throws ends the method before the relay is recorded.
\<close>

definition onEose :: "env \<Rightarrow> int \<Rightarrow> string \<Rightarrow> subscription \<Rightarrow> subscription" where
  "onEose env now url s =
     (let s1 = emit env ''eose'' (PUrl url) s
      in if emit_throws env ''eose'' (PUrl url) s then s1
         else
           let s2 = add_eose url s1
           in if truthy_num (timeout (opts_of s2)) \<and>
                 length (eose s2) = length (relays (opts_of s2))
              then close env now s2 else s2)"

section \<open>Opening a subscription\<close>

text \<open>
  Ramda's \<^verbatim>\<open>uniqBy\<close>: one pass from the left with the set of keys met so far; an element
  whose key was met is skipped. \<^verbatim>\<open>uniq\<close> is \<^verbatim>\<open>uniqBy\<close> with the identity as key.
\<close>

fun uniqBy_from :: "('a \<Rightarrow> 'k) \<Rightarrow> 'k set \<Rightarrow> 'a list \<Rightarrow> 'a list" where
  "uniqBy_from f met [] = []"
| "uniqBy_from f met (x # xs) =
     (if f x \<in> met then uniqBy_from f met xs else x # uniqBy_from f (insert (f x) met) xs)"

definition uniqBy :: "('a \<Rightarrow> 'k) \<Rightarrow> 'a list \<Rightarrow> 'a list" where
  "uniqBy f xs = uniqBy_from f {} xs"

definition uniq :: "'a list \<Rightarrow> 'a list" where
  "uniq xs = uniqBy (\<lambda>x. x) xs"

datatype error = NoRelays | BadFilters

text \<open>
  Modelled from the spec: \<^verbatim>\<open>getUrls\<close> (\<^verbatim>\<open>src/engine2/queries\<close>) is not among the
  sources. The specification says that opening "resolves the set of relay endpoints to query
  (deduplicating equivalent URLs)" and that "an empty relay set fail[s] fast at open time".
\<close>

definition getUrls :: "env \<Rightarrow> string list \<Rightarrow> error + string list" where
  "getUrls env rs = (if rs = [] then Inl NoRelays else Inr (uniq (map (normalizeUrl env) rs)))"

text \<open>
  Modelled from the spec: \<^verbatim>\<open>getExecutor(urls).subscribe(filters, ...)\<close>
  (\<^verbatim>\<open>src/engine2/queries\<close> and the transport library) is not among the sources. The
  specification says that "malformed filters ... fail fast at open time" and lists the
  "empty filter list" among the protocol violations surfaced synchronously.
\<close>

definition executor_subscribe :: "env \<Rightarrow> string list \<Rightarrow> filter list \<Rightarrow> error + unit" where
  "executor_subscribe env urls fs =
     (if fs = [] \<or> \<not> list_all (wellFormed env) fs then Inl BadFilters else Inr ())"

text \<open>The field initialisers of the class; \<open>now\<close> is the reading of \<^verbatim>\<open>Date.now()\<close>.\<close>

definition fresh :: "int \<Rightarrow> opts \<Rightarrow> subscription" where
  "fresh now os =
     \<lparr>opts_of = os, opened = now, closed = None, result = None, events = [],
      seen = Map.empty, eose = [], executor = None, sub = False, listeners = [], trace = []\<rparr>"

text \<open>
  \<^verbatim>\<open>start\<close>, lines 37-51. The timer is armed before the relay URLs are resolved; an
  exception of a collaborator leaves \<^verbatim>\<open>start\<close> (and the constructor) at once.
\<close>

definition start :: "env \<Rightarrow> subscription \<Rightarrow> error + subscription" where
  "start env s =
     (let s1 = (case timeout (opts_of s) of
                  None \<Rightarrow> s
                | Some t \<Rightarrow> (if t \<noteq> 0 then log_effect (SetTimeout t) s else s))
      in (case getUrls env (relays (opts_of s1)) of
            Inl err \<Rightarrow> Inl err
          | Inr urls \<Rightarrow>
              (let s2 = s1\<lparr>executor := Some urls\<rparr>
               in (case executor_subscribe env urls (filters (opts_of s2)) of
                     Inl err \<Rightarrow> Inl err
                   | Inr u \<Rightarrow>
                       Inr (log_effect (ExecutorSubscribe urls (filters (opts_of s2)))
                              (s2\<lparr>sub := True\<rparr>))))))"

text \<open>The constructor: the field initialisers, then \<^verbatim>\<open>this.start()\<close>.\<close>

definition Subscription :: "env \<Rightarrow> int \<Rightarrow> opts \<Rightarrow> error + subscription" where
  "Subscription env now os = start env (fresh now os)"

text \<open>\<^verbatim>\<open>EventEmitter.on\<close>, which the class inherits, and its use for an optional callback.\<close>

definition on :: "string \<Rightarrow> nat \<Rightarrow> subscription \<Rightarrow> subscription" where
  "on name c s = s\<lparr>listeners := listeners s @ [(name, c)]\<rparr>"

definition on_opt :: "string \<Rightarrow> nat option \<Rightarrow> subscription \<Rightarrow> subscription" where
  "on_opt name cb s = (case cb of None \<Rightarrow> s | Some c \<Rightarrow> on name c s)"

text \<open>\<^verbatim>\<open>subscribe\<close>, lines 117-130.\<close>

definition subscribe :: "env \<Rightarrow> int \<Rightarrow> opts \<Rightarrow> error + subscription" where
  "subscribe env now os =
     (case Subscription env now os of
        Inl err \<Rightarrow> Inl err
      | Inr s \<Rightarrow>
          Inr (on_opt ''close'' (onClose_cb os)
                (on_opt ''eose'' (onEose_cb os)
                  (on_opt ''event'' (onEvent_cb os)
                    (log_effect (Info ''Starting subscription'') s)))))"

section \<open>What the environment does to a subscription\<close>

text \<open>
  The transport delivers events and end-of-stored-events signals, a timer or a caller
  invokes \<^verbatim>\<open>close\<close>, a holder of the handle that \<^verbatim>\<open>subscribe\<close> returned registers a
  listener with \<^verbatim>\<open>on\<close>, and time passes. The clock is threaded with the subscription;
  \<^verbatim>\<open>Date.now()\<close> reads it.
\<close>

datatype op = Deliver string event | Eose string | Close | On string nat | Tick nat

fun step :: "env \<Rightarrow> int \<times> subscription \<Rightarrow> op \<Rightarrow> int \<times> subscription" where
  "step env (t, s) (Deliver url e) = (t, onEvent env url e s)"
| "step env (t, s) (Eose url) = (t, onEose env t url s)"
| "step env (t, s) Close = (t, close env t s)"
| "step env (t, s) (On name c) = (t, on name c s)"
| "step env (t, s) (Tick d) = (t + int d, s)"

definition run :: "env \<Rightarrow> op list \<Rightarrow> int \<times> subscription \<Rightarrow> int \<times> subscription" where
  "run env ops ts = foldl (step env) ts ops"

text \<open>The listeners that a script registers, in order.\<close>

fun registered :: "op list \<Rightarrow> (string \<times> nat) list" where
  "registered [] = []"
| "registered (On name c # ops) = (name, c) # registered ops"
| "registered (x # ops) = registered ops"

section \<open>The persistent subscription loop\<close>

text \<open>
  Modelled from the spec: \<^verbatim>\<open>now()\<close> (\<^verbatim>\<open>src/util/misc\<close>) is not among the sources. The
  specification says that every filter's cursor is "advanced to now at the moment of
  relaunch" and compares it with the close time of the epoch before, so \<^verbatim>\<open>now()\<close> is the
  reading of the clock that \<^verbatim>\<open>Date.now()\<close> reads, in the same unit.
\<close>

definition now :: "int \<Rightarrow> int" where
  "now clock = clock"

text \<open>\<^verbatim>\<open>updateIn("filters", map(assoc("since", c)), opts)\<close>.\<close>

definition advance :: "int \<Rightarrow> opts \<Rightarrow> opts" where
  "advance c os = os\<lparr>filters := map (\<lambda>f. f\<lparr>since := Some c\<rparr>) (filters os)\<rparr>"

text \<open>
  \<^verbatim>\<open>subscribePersistent\<close>, lines 132-139. The loop never ends by itself, so the model is
  driven by the list of what the environment does during each epoch: it opens a
  subscription, lets the epoch's script run, and goes on with the next epoch when the
  deferred result is resolved; with a pending result the \<^verbatim>\<open>await\<close> never returns and the
  loop stays in that epoch, and an exception of \<^verbatim>\<open>subscribe\<close> ends the loop. The model
  returns, for every epoch that was opened, the options it was opened with and the
  subscription as the epoch left it.
\<close>

fun subscribePersistent :: "env \<Rightarrow> int \<Rightarrow> op list list \<Rightarrow> opts \<Rightarrow> (opts \<times> subscription) list" where
  "subscribePersistent env t [] os = []"
| "subscribePersistent env t (script # rest) os =
     (case subscribe env t os of
        Inl err \<Rightarrow> []
      | Inr s0 \<Rightarrow>
          (case run env script (t, s0) of
             (t1, s1) \<Rightarrow>
               (case result s1 of
                  None \<Rightarrow> [(os, s1)]
                | Some r \<Rightarrow> (os, s1) # subscribePersistent env t1 rest (advance (now t1) os))))"

section \<open>The channel projections\<close>

text \<open>
  A channel cell of the keyed store \<^verbatim>\<open>channels\<close>. A JavaScript object may lack any of
  its fields, so each one is optional. \<^verbatim>\<open>meta\<close> is the parsed JSON value, represented by
  the text it was parsed from. \<^verbatim>\<open>updated_at\<close> is the timestamp that \<^verbatim>\<open>updateKey\<close> keeps.
\<close>

record nip28_info =
  owner :: "string option"
  joined :: "bool option"

record channel =
  id_ch :: "string option"
  type_ch :: "string option"
  meta :: "string option"
  relays_ch :: "string list option"
  messages :: "event list option"
  last_sent :: "int option"
  last_received :: "int option"
  last_checked :: "int option"
  nip28 :: "nip28_info option"
  updated_at :: "int option"

type_synonym store = "string \<rightharpoonup> channel"

definition empty_channel :: channel where
  "empty_channel =
     \<lparr>id_ch = None, type_ch = None, meta = None, relays_ch = None, messages = None,
      last_sent = None, last_received = None, last_checked = None, nip28 = None,
      updated_at = None\<rparr>"

text \<open>Ramda's \<^verbatim>\<open>assocPath(["nip28", "owner"], pubkey)\<close> on a channel.\<close>

definition assoc_owner :: "string \<Rightarrow> channel \<Rightarrow> channel" where
  "assoc_owner pk c =
     c\<lparr>nip28 := Some ((case nip28 c of None \<Rightarrow> \<lparr>owner = None, joined = None\<rparr> | Some n \<Rightarrow> n)
                       \<lparr>owner := Some pk\<rparr>)\<rparr>"

text \<open>
  Modelled from the spec: \<^verbatim>\<open>updateKey\<close> (\<^verbatim>\<open>src/engine2/projections/core\<close>) is not among
  the sources. The specification gives the policy of handlers that update a timestamped
  cell: "compare the event's embedded logical timestamp, not wall-clock arrival time, and
  keep the maximum" (last write wins by embedded timestamp). The cell is created when it
  is absent, and the caller's \<^verbatim>\<open>modify\<close> is applied to the record that is stored.
\<close>

definition updateKey ::
  "string \<Rightarrow> int \<Rightarrow> string \<Rightarrow> string list \<Rightarrow> (channel \<Rightarrow> channel) \<Rightarrow> store \<Rightarrow> store" where
  "updateKey k timestamp m rs modify st =
     (let record = (case st k of None \<Rightarrow> empty_channel | Some c \<Rightarrow> c);
          newer = (case updated_at record of None \<Rightarrow> True | Some u \<Rightarrow> u < timestamp);
          record1 = (if newer
                     then record\<lparr>meta := Some m, relays_ch := Some rs,
                                 updated_at := Some timestamp\<rparr>
                     else record)
      in st(k \<mapsto> modify record1))"

text \<open>
  The handler of kind 40 (channel creation), lines 9-21 of the projections file.
  \<^verbatim>\<open>JSON.parse\<close> of an absent content throws, which \<^verbatim>\<open>tryJson\<close> turns into
  \<^verbatim>\<open>undefined\<close>.
\<close>

definition handler40 :: "env \<Rightarrow> event \<Rightarrow> store \<Rightarrow> store" where
  "handler40 env e st =
     (case content e of
        None \<Rightarrow> st
      | Some c \<Rightarrow>
          (if json_name env c
           then updateKey (id_ev e) (created_at e) c (tag_relays env e)
                  (assoc_owner (pubkey e)) st
           else st))"

text \<open>\<^verbatim>\<open>channel?.nip28?.owner\<close>.\<close>

definition owner_of :: "channel option \<Rightarrow> string option" where
  "owner_of ch =
     (case ch of
        None \<Rightarrow> None
      | Some c \<Rightarrow> (case nip28 c of None \<Rightarrow> None | Some n \<Rightarrow> owner n))"

text \<open>
  The handler of kind 41 (channel metadata update), lines 23-42. An absent and an empty
  \<^verbatim>\<open>e\<close> tag value are both falsy.
\<close>

definition handler41 :: "env \<Rightarrow> event \<Rightarrow> store \<Rightarrow> store" where
  "handler41 env e st =
     (case getMeta env e ''e'' of
        None \<Rightarrow> st
      | Some channelId \<Rightarrow>
          (if channelId = [] then st
           else if Some (pubkey e) \<noteq> owner_of (st channelId) then st
           else (case content e of
                   None \<Rightarrow> st
                 | Some c \<Rightarrow>
                     (if json_name env c
                      then updateKey channelId (created_at e) c (tag_relays env e) (\<lambda>r. r) st
                      else st))))"

text \<open>\<^verbatim>\<open>x || []\<close> and \<^verbatim>\<open>x || 0\<close>.\<close>

definition or_nil :: "'a list option \<Rightarrow> 'a list" where
  "or_nil v = (case v of None \<Rightarrow> [] | Some xs \<Rightarrow> xs)"

definition or_zero :: "int option \<Rightarrow> int" where
  "or_zero v = (case v of None \<Rightarrow> 0 | Some n \<Rightarrow> n)"

text \<open>
  The handler of kind 42 (channel message), lines 89-115. \<open>pubkeys\<close> is
  \<^verbatim>\<open>pluck("pubkey", keys.get())\<close>, the user's own keys.
\<close>

definition handler42 :: "env \<Rightarrow> string list \<Rightarrow> event \<Rightarrow> store \<Rightarrow> store" where
  "handler42 env pubkeys e st =
     (case getMeta env e ''e'' of
        None \<Rightarrow> st
      | Some channelId \<Rightarrow>
          (if channelId = [] then st
           else
             let ch = (case st channelId of None \<Rightarrow> empty_channel | Some c \<Rightarrow> c);
                 updates = ch\<lparr>id_ch := Some channelId, type_ch := Some ''nip28'',
                              relays_ch := Some (uniq (tag_relays env e @ or_nil (relays_ch ch))),
                              messages := Some (uniqBy id_ev (e # or_nil (messages ch)))\<rparr>
             in st(channelId \<mapsto>
                  (if pubkey e \<in> set pubkeys
                   then updates\<lparr>last_sent :=
                                   Some (max (or_zero (last_sent updates)) (created_at e))\<rparr>
                   else updates\<lparr>last_received :=
                                   Some (max (or_zero (last_received updates)) (created_at e))\<rparr>))))"

section \<open>The scenario of the specification\<close>

text \<open>
  Relays R1 and R2, one filter for kind 42 with the \<^verbatim>\<open>#e\<close> value \<^verbatim>\<open>channel-X\<close>, a
  timeout of 5000; the event with id A and timestamp 100 is delivered by R1 and then by R2,
  and both relays signal the end of stored events. The collaborators are instantiated for
  the scenario: every signature verifies, every relay is shareable, URLs are already
  normal, no listener throws, and the kinds and \<^verbatim>\<open>#e\<close> clauses of a filter are matched
  as the protocol defines them.
\<close>

definition first_tag :: "event \<Rightarrow> string \<Rightarrow> string option" where
  "first_tag e k =
     (case filter (\<lambda>t. take 1 t = [k] \<and> 2 \<le> length t) (tags e) of
        [] \<Rightarrow> None
      | t # ts \<Rightarrow> Some (t ! 1))"

definition protocol_match :: "filter \<Rightarrow> event \<Rightarrow> bool" where
  "protocol_match f e =
     ((case kinds f of None \<Rightarrow> True | Some ks \<Rightarrow> kind e \<in> set ks) \<and>
      (case tag_e f of
         None \<Rightarrow> True
       | Some vs \<Rightarrow> list_ex (\<lambda>t. take 1 t = [''e''] \<and> 2 \<le> length t \<and> t ! 1 \<in> set vs) (tags e)))"

definition scenario_env :: env where
  "scenario_env =
     \<lparr>verifySignature = (\<lambda>e. Some True), matchOther = protocol_match,
      isShareableRelay = (\<lambda>u. True), normalizeUrl = (\<lambda>u. u), wellFormed = (\<lambda>f. True),
      getMeta = first_tag, tag_relays = (\<lambda>e. []), json_name = (\<lambda>c. c \<noteq> []),
      throws = (\<lambda>c p. False)\<rparr>"

definition scenario_opts :: opts where
  "scenario_opts =
     \<lparr>relays = [''R1'', ''R2''],
      filters = [\<lparr>kinds = Some [42], tag_e = Some [''channel-X''], since = None\<rparr>],
      timeout = Some 5000, shouldProject = None,
      onEvent_cb = Some 1, onEose_cb = Some 2, onClose_cb = Some 3\<rparr>"

definition e1 :: event where
  "e1 = \<lparr>id_ev = ''A'', pubkey = ''P'', created_at = 100, kind = 42,
         tags = [[''e'', ''channel-X'']], content = Some ''hello'', sig = ''S''\<rparr>"

definition scenario_ops :: "op list" where
  "scenario_ops = [Deliver ''R1'' e1, Deliver ''R2'' e1, Eose ''R1'', Eose ''R2'']"

text \<open>The completion value of a subscription that was opened and then driven by a script.\<close>

definition completion :: "env \<Rightarrow> int \<Rightarrow> opts \<Rightarrow> op list \<Rightarrow> event list option" where
  "completion env t os ops =
     (case subscribe env t os of
        Inl err \<Rightarrow> None
      | Inr s \<Rightarrow> result (snd (run env ops (t, s))))"

section \<open>Observing the trace\<close>

text \<open>What an operation appended to the trace.\<close>

definition new_effects :: "subscription \<Rightarrow> subscription \<Rightarrow> effect list" where
  "new_effects s s' = drop (length (trace s)) (trace s')"

text \<open>
  The effects of the processing pipeline of \<^verbatim>\<open>onEvent\<close> that concern the event with a
  given id: the signature check, the filter check, the warnings, the hand-over to the
  projection registry, the emission on the live stream and the listener calls it makes.
\<close>

fun about :: "string \<Rightarrow> effect \<Rightarrow> bool" where
  "about i (VerifySignature e) = (id_ev e = i)"
| "about i (MatchFilters e) = (id_ev e = i)"
| "about i (Warn m e) = (id_ev e = i)"
| "about i (ProjectionsPush e) = (id_ev e = i)"
| "about i (Emit n (PEvent e)) = (id_ev e = i)"
| "about i (Invoke c n (PEvent e)) = (id_ev e = i)"
| "about i x = False"

fun is_verify :: "effect \<Rightarrow> bool" where
  "is_verify (VerifySignature e) = True"
| "is_verify x = False"

text \<open>How often the transport was told to unsubscribe, and how often it was cleaned up.\<close>

definition unsubscribes :: "subscription \<Rightarrow> nat" where
  "unsubscribes s = length (filter (\<lambda>x. x = Unsubscribe) (trace s))"

definition cleanups :: "subscription \<Rightarrow> nat" where
  "cleanups s = length (filter (\<lambda>x. x = Cleanup) (trace s))"

text \<open>Options that name the same relay twice, and a second event for the scenario.\<close>

definition twice_opts :: opts where
  "twice_opts = scenario_opts\<lparr>relays := [''R1'', ''R1'']\<rparr>"

definition e2 :: event where
  "e2 = e1\<lparr>id_ev := ''B'', created_at := 200\<rparr>"

text \<open>
  What holds of a subscription that \<^verbatim>\<open>subscribe\<close> returned, whatever the environment did
  since: the clock is past the epoch, the transport handle and the executor are set, and
  the transport was released once if the subscription is closed and not at all otherwise.
\<close>

definition live :: "int \<times> subscription \<Rightarrow> bool" where
  "live ts =
     (0 < fst ts \<and> sub (snd ts) \<and> executor (snd ts) \<noteq> None \<and>
      unsubscribes (snd ts) = (if is_closed (snd ts) then 1 else 0) \<and>
      cleanups (snd ts) = (if is_closed (snd ts) then 1 else 0))"

text \<open>The subscription that \<^verbatim>\<open>subscribe\<close> returns for the scenario at time 1000.\<close>

definition scenario_sub :: subscription where
  "scenario_sub =
     \<lparr>opts_of = scenario_opts, opened = 1000, closed = None, result = None, events = [],
      seen = Map.empty, eose = [], executor = Some [''R1'', ''R2''], sub = True,
      listeners = [(''event'', 1), (''eose'', 2), (''close'', 3)],
      trace = [SetTimeout 5000, ExecutorSubscribe [''R1'', ''R2''] (filters scenario_opts),
               Info ''Starting subscription'']\<rparr>"

text \<open>
  The subscription that \<^verbatim>\<open>subscribe\<close> returns at time 1000 when the options name R1
  twice: the executor is built for the one resolved URL.
\<close>

definition twice_sub :: subscription where
  "twice_sub =
     \<lparr>opts_of = twice_opts, opened = 1000, closed = None, result = None, events = [],
      seen = Map.empty, eose = [], executor = Some [''R1''], sub = True,
      listeners = [(''event'', 1), (''eose'', 2), (''close'', 3)],
      trace = [SetTimeout 5000, ExecutorSubscribe [''R1''] (filters scenario_opts),
               Info ''Starting subscription'']\<rparr>"

text \<open>
  The effects by which an event leaves the subscription: the hand-over to the projection
  registry, the emission on the live stream, a listener call.
\<close>

fun propagates :: "effect \<Rightarrow> bool" where
  "propagates (ProjectionsPush e) = True"
| "propagates (Emit n p) = True"
| "propagates (Invoke c n p) = True"
| "propagates x = False"

text \<open>
  What the first delivery of an event appends to the trace: the processing pipeline of
  \<^verbatim>\<open>onEvent\<close>, lines 70-84, run on the event with its content defaulted.
\<close>

definition pipeline :: "env \<Rightarrow> subscription \<Rightarrow> event \<Rightarrow> effect list" where
  "pipeline env s d =
     VerifySignature d #
     (if verifySignature env d \<noteq> Some True
      then [Warn ''Signature verification failed'' d]
      else MatchFilters d #
        (if \<not> matchFilters env (filters (opts_of s)) d
         then [Warn ''Event failed to match filter'' d]
         else (if shouldProject (opts_of s) \<noteq> Some False then [ProjectionsPush d] else []) @
              emit_effects env ''event'' (PEvent d) s))"

text \<open>The listeners that an effect list shows as called, with the name they were called for.\<close>

fun called_in :: "effect list \<Rightarrow> (string \<times> nat) list" where
  "called_in [] = []"
| "called_in (Invoke c n p # xs) = (n, c) # called_in xs"
| "called_in (x # xs) = called_in xs"

text \<open>
  A delivered event is new to the subscription, verifies and satisfies the filters.
\<close>

definition passes :: "env \<Rightarrow> subscription \<Rightarrow> event \<Rightarrow> bool" where
  "passes env s e =
     (seen s (id_ev e) = None \<and>
      verifySignature env (default_content e) = Some True \<and>
      matchFilters env (filters (opts_of s)) (default_content e))"

text \<open>
  The clock has left 0 and a resolved completion value comes with a closed-at timestamp
  that is not ahead of the clock.
\<close>

definition settled :: "int \<Rightarrow> subscription \<Rightarrow> bool" where
  "settled t s =
     (t \<noteq> 0 \<and>
      (result s = None \<or> (case closed s of None \<Rightarrow> False | Some c \<Rightarrow> c \<le> t)))"

text \<open>
  Further inputs for the scenario: an event of a kind that the filter does not ask for, a
  metadata update of kind 41 for the channel by an author who does not own it, and a store
  in which the channel is owned by the author of \<open>e1\<close>.
\<close>

definition e3 :: event where
  "e3 = e1\<lparr>id_ev := ''C'', kind := 1\<rparr>"

definition e41 :: event where
  "e41 = e1\<lparr>id_ev := ''D'', pubkey := ''Q'', kind := 41, content := Some ''{name: x}''\<rparr>"

definition owned_store :: store where
  "owned_store =
     [''channel-X'' \<mapsto> empty_channel\<lparr>nip28 := Some \<lparr>owner = Some ''P'', joined = None\<rparr>\<rparr>]"

text \<open>Two epochs of the scenario for the persistent loop; the first lasts 5 ticks longer.\<close>

definition two_epochs :: "op list list" where
  "two_epochs = [scenario_ops @ [Tick 5], scenario_ops]"

text \<open>
  The collaborators of the scenario when the listener of \<^verbatim>\<open>close\<close> throws; the scenario
  up to the signal that closes the subscription; and the subscription after the scenario
  when a listener of \<^verbatim>\<open>event\<close> is registered through the handle afterwards.
\<close>

definition throwing_env :: env where
  "throwing_env = scenario_env\<lparr>throws := (\<lambda>c p. c = 3)\<rparr>"

definition scenario_before :: "op list" where
  "scenario_before = [Deliver ''R1'' e1, Deliver ''R2'' e1, Eose ''R1'']"

definition late_sub :: subscription where
  "late_sub =
     snd (run scenario_env [On ''event'' 7]
            (step scenario_env (run scenario_env scenario_before (1000, scenario_sub))
               (Eose ''R2'')))"

section \<open>Facts about the operations\<close>

lemmas sub_defs = onEvent_def onEose_def close_def emit_def emit_effects_def emit_throws_def
  registered_under_def add_eose_def resolve_def log_effect_def is_closed_def truthy_num_def
  default_content_def Let_def

lemmas open_defs = subscribe_def Subscription_def start_def fresh_def getUrls_def
  executor_subscribe_def on_opt_def on_def log_effect_def uniq_def uniqBy_def

lemma emit_keeps:
  "sub (emit env n p s) = sub s"
  "executor (emit env n p s) = executor s"
  "closed (emit env n p s) = closed s"
  "listeners (emit env n p s) = listeners s"
  "opts_of (emit env n p s) = opts_of s"
  "events (emit env n p s) = events s"
  "result (emit env n p s) = result s"
  "seen (emit env n p s) = seen s"
  "eose (emit env n p s) = eose s"
  "is_closed (emit env n p s) = is_closed s"
  by (simp_all add: emit_def is_closed_def)

lemma emit_counts:
  "unsubscribes (emit env n p s) = unsubscribes s"
  "cleanups (emit env n p s) = cleanups s"
  by (simp_all add: emit_def emit_effects_def unsubscribes_def cleanups_def o_def)

lemma add_eose_keeps:
  "sub (add_eose u s) = sub s"
  "executor (add_eose u s) = executor s"
  "closed (add_eose u s) = closed s"
  "listeners (add_eose u s) = listeners s"
  "opts_of (add_eose u s) = opts_of s"
  "events (add_eose u s) = events s"
  "result (add_eose u s) = result s"
  "seen (add_eose u s) = seen s"
  "trace (add_eose u s) = trace s"
  "is_closed (add_eose u s) = is_closed s"
  "unsubscribes (add_eose u s) = unsubscribes s"
  "cleanups (add_eose u s) = cleanups s"
  by (simp_all add: add_eose_def is_closed_def unsubscribes_def cleanups_def)

lemma on_keeps:
  "sub (on n c s) = sub s"
  "executor (on n c s) = executor s"
  "closed (on n c s) = closed s"
  "opts_of (on n c s) = opts_of s"
  "events (on n c s) = events s"
  "result (on n c s) = result s"
  "seen (on n c s) = seen s"
  "trace (on n c s) = trace s"
  "is_closed (on n c s) = is_closed s"
  "unsubscribes (on n c s) = unsubscribes s"
  "cleanups (on n c s) = cleanups s"
  by (simp_all add: on_def is_closed_def unsubscribes_def cleanups_def)

lemma onEose_cases:
  assumes "P (emit env ''eose'' (PUrl u) s)"
    and "P (add_eose u (emit env ''eose'' (PUrl u) s))"
    and "P (close env t (add_eose u (emit env ''eose'' (PUrl u) s)))"
  shows "P (onEose env t u s)"
  using assms by (simp add: onEose_def Let_def)

lemma close_closed: "is_closed s \<Longrightarrow> close env t s = s"
  by (simp add: close_def)

lemma is_closed_close: "t \<noteq> 0 \<Longrightarrow> is_closed (close env t s)"
  by (simp add: close_def resolve_def log_effect_def emit_def is_closed_def truthy_num_def
      Let_def)

lemma close_keeps:
  "opts_of (close env t s) = opts_of s"
  "events (close env t s) = events s"
  "seen (close env t s) = seen s"
  by (simp_all add: close_def resolve_def log_effect_def emit_def Let_def)

lemma onEvent_keeps:
  "sub (onEvent env u e s) = sub s"
  "executor (onEvent env u e s) = executor s"
  "closed (onEvent env u e s) = closed s"
  "listeners (onEvent env u e s) = listeners s"
  "opts_of (onEvent env u e s) = opts_of s"
  "events (onEvent env u e s) = events s"
  "result (onEvent env u e s) = result s"
  "unsubscribes (onEvent env u e s) = unsubscribes s"
  "cleanups (onEvent env u e s) = cleanups s"
  by (simp_all add: onEvent_def emit_def emit_effects_def log_effect_def default_content_def
      Let_def unsubscribes_def cleanups_def o_def split: option.splits)

lemma live_close: "live (t, s) \<Longrightarrow> live (t, close env t s)"
  by (auto simp add: live_def close_def resolve_def log_effect_def emit_def emit_effects_def
      is_closed_def truthy_num_def unsubscribes_def cleanups_def o_def Let_def)

lemma live_onEose:
  assumes "live (t, s)"
  shows "live (t, onEose env t u s)"
proof (rule onEose_cases)
  show l1: "live (t, emit env ''eose'' (PUrl u) s)"
    using assms by (simp add: live_def emit_keeps emit_counts)
  then show l2: "live (t, add_eose u (emit env ''eose'' (PUrl u) s))"
    by (simp add: live_def add_eose_keeps)
  then show "live (t, close env t (add_eose u (emit env ''eose'' (PUrl u) s)))"
    by (rule live_close)
qed

lemma live_step: "live ts \<Longrightarrow> live (step env ts x)"
  by (cases ts; cases x)
    (simp_all add: live_close live_onEose,
     simp_all add: live_def onEvent_keeps on_keeps is_closed_def)

lemma run_snoc: "run env (ops @ [x]) ts = step env (run env ops ts) x"
  by (simp add: run_def)

lemma run_nil: "run env [] ts = ts"
  by (simp add: run_def)

lemma run_append: "run env (a @ b) ts = run env b (run env a ts)"
  by (simp add: run_def)

lemma live_run: "live ts \<Longrightarrow> live (run env ops ts)"
  by (induction ops rule: rev_induct) (simp_all add: run_snoc run_nil live_step)

lemma subscribe_fresh:
  assumes "subscribe env t os = Inr s"
  shows "opts_of s = os \<and> result s = None \<and> events s = [] \<and> opened s = t \<and>
         sub s \<and> executor s \<noteq> None \<and> closed s = None \<and>
         Unsubscribe \<notin> set (trace s) \<and> Cleanup \<notin> set (trace s)"
  using assms
  by (auto simp add: open_defs Let_def split: if_splits option.splits sum.splits)

lemma live_subscribe:
  assumes "0 < t" and "subscribe env t os = Inr s"
  shows "live (t, s)"
proof -
  from subscribe_fresh [OF assms(2)]
  have "sub s" "executor s \<noteq> None" "\<not> is_closed s" "unsubscribes s = 0" "cleanups s = 0"
    by (auto simp add: is_closed_def truthy_num_def unsubscribes_def cleanups_def
        filter_empty_conv)
  with assms(1) show ?thesis
    by (simp add: live_def)
qed

lemma scenario_subscribe: "subscribe scenario_env 1000 scenario_opts = Inr scenario_sub"
  by (simp add: open_defs scenario_env_def scenario_opts_def scenario_sub_def Let_def)

lemmas scenario_defs = scenario_env_def scenario_opts_def scenario_sub_def scenario_ops_def
  e1_def e2_def twice_opts_def protocol_match_def first_tag_def matchFilters_def
  matchFilter_def since_ok_def run_def

lemma scenario_run:
  "run scenario_env scenario_ops (1000, scenario_sub) =
     (1000, scenario_sub\<lparr>closed := Some 1000, result := Some [],
        seen := [''A'' \<mapsto> [''R1'', ''R2'']], eose := [''R1'', ''R2''], listeners := [],
        trace := trace scenario_sub @
          [VerifySignature e1, MatchFilters e1, ProjectionsPush e1,
           Emit ''event'' (PEvent e1), Invoke 1 ''event'' (PEvent e1),
           Emit ''eose'' (PUrl ''R1''), Invoke 2 ''eose'' (PUrl ''R1''),
           Emit ''eose'' (PUrl ''R2''), Invoke 2 ''eose'' (PUrl ''R2''),
           Resolve [], Unsubscribe, Cleanup, Emit ''close'' (PEvents []),
           Invoke 3 ''close'' (PEvents []), RemoveAllListeners]\<rparr>)"
  by (simp add: scenario_defs sub_defs)

section \<open>Closing is idempotent\<close>

text \<open>
  C6. Calling \<^verbatim>\<open>close\<close> on a subscription that is already closed returns the very same
  subscription: the closed-at timestamp, the completion value, the listeners and the
  trace of calls to the transport are unchanged. Once \<^verbatim>\<open>close\<close> has run at a clock
  reading other than 0, a second call is such a no-op. Hence, for a subscription that
  \<^verbatim>\<open>subscribe\<close> returned while the clock is past the epoch, and whatever sequence of
  deliveries, end-of-stored-events signals, \<^verbatim>\<open>close\<close> calls, listener registrations and
  clock ticks follows, the transport's \<^verbatim>\<open>unsubscribe\<close> and \<^verbatim>\<open>cleanup\<close> have each been
  called exactly once if the subscription is closed, and never otherwise.
\<close>

theorem close_idempotent:
  assumes "0 < t0" and "subscribe env t0 os = Inr s0"
  shows "(is_closed s \<longrightarrow> close env t s = s) \<and>
         (t1 \<noteq> 0 \<longrightarrow> close env t2 (close env t1 s) = close env t1 s) \<and>
         unsubscribes (snd (run env ops (t0, s0))) =
           (if is_closed (snd (run env ops (t0, s0))) then 1 else 0) \<and>
         cleanups (snd (run env ops (t0, s0))) =
           (if is_closed (snd (run env ops (t0, s0))) then 1 else 0)"
proof -
  have "live (run env ops (t0, s0))"
    using assms by (intro live_run live_subscribe)
  then show ?thesis
    by (simp add: live_def close_closed is_closed_close)
qed

theorem close_idempotent_witness:
  "0 < (1000::int) \<and> subscribe scenario_env 1000 scenario_opts = Inr scenario_sub \<and>
   is_closed (close scenario_env 1000 scenario_sub) \<and>
   close scenario_env 2000 (close scenario_env 1000 scenario_sub) =
     close scenario_env 1000 scenario_sub \<and>
   is_closed (snd (run scenario_env (scenario_ops @ [Close, Close]) (1000, scenario_sub))) \<and>
   unsubscribes (snd (run scenario_env (scenario_ops @ [Close, Close]) (1000, scenario_sub))) = 1 \<and>
   cleanups (snd (run scenario_env (scenario_ops @ [Close, Close]) (1000, scenario_sub))) = 1"
proof -
  have c: "is_closed (close scenario_env 1000 scenario_sub)"
    by (simp add: is_closed_close)
  have r: "is_closed (snd (run scenario_env (scenario_ops @ [Close, Close]) (1000, scenario_sub)))"
    by (simp add: run_append scenario_run) (simp add: run_def close_def is_closed_def truthy_num_def)
  show ?thesis
    using c r close_idempotent [where ?t0.0 = 1000 and env = scenario_env and os = scenario_opts
        and ?s0.0 = scenario_sub and s = "close scenario_env 1000 scenario_sub" and t = 2000
        and ?t1.0 = 1000 and ?t2.0 = 2000 and ops = "scenario_ops @ [Close, Close]"]
    by (simp add: scenario_subscribe)
qed

section \<open>The completion value\<close>

lemma step_events: "events (snd (step env ts x)) = events (snd ts)"
proof (cases ts)
  case (Pair t s)
  have "events (onEose env t u s) = events s" for u
    by (rule onEose_cases) (simp_all add: emit_keeps add_eose_keeps close_keeps)
  with Pair show ?thesis
    by (cases x) (simp_all add: onEvent_keeps close_keeps on_keeps)
qed

lemma run_events: "events (snd (run env ops ts)) = events (snd ts)"
  by (induction ops rule: rev_induct) (simp_all add: run_nil run_snoc step_events)

text \<open>
  No operation appends to \<^verbatim>\<open>this.events\<close>, so whatever the environment does, the
  completion value is pending or the empty list.
\<close>

lemma close_result_empty:
  assumes "events s = []" and "result s = None \<or> result s = Some []"
  shows "result (close env t s) = None \<or> result (close env t s) = Some []"
  using assms
  by (auto simp add: close_def resolve_def log_effect_def emit_def Let_def)

lemma step_result_empty:
  assumes "events s = []" and "result s = None \<or> result s = Some []"
  shows "result (snd (step env (t, s) x)) = None \<or> result (snd (step env (t, s) x)) = Some []"
proof (cases x)
  case (Deliver u e)
  with assms show ?thesis by (simp add: onEvent_keeps)
next
  case (Eose u)
  have "result (onEose env t u s) = None \<or> result (onEose env t u s) = Some []"
  proof (rule onEose_cases)
    show "result (emit env ''eose'' (PUrl u) s) = None \<or>
          result (emit env ''eose'' (PUrl u) s) = Some []"
      using assms by (simp add: emit_keeps)
    show "result (add_eose u (emit env ''eose'' (PUrl u) s)) = None \<or>
          result (add_eose u (emit env ''eose'' (PUrl u) s)) = Some []"
      using assms by (simp add: emit_keeps add_eose_keeps)
    show "result (close env t (add_eose u (emit env ''eose'' (PUrl u) s))) = None \<or>
          result (close env t (add_eose u (emit env ''eose'' (PUrl u) s))) = Some []"
      using assms by (intro close_result_empty) (simp_all add: emit_keeps add_eose_keeps)
  qed
  with Eose show ?thesis by simp
next
  case Close
  with assms close_result_empty [of s env t] show ?thesis by simp
next
  case (On n c)
  with assms show ?thesis by (simp add: on_keeps)
next
  case (Tick d)
  with assms show ?thesis by simp
qed

lemma run_result_empty:
  assumes "events (snd ts) = []" and "result (snd ts) = None \<or> result (snd ts) = Some []"
  shows "result (snd (run env ops ts)) = None \<or> result (snd (run env ops ts)) = Some []"
proof (induction ops rule: rev_induct)
  case Nil
  show ?case using assms by (simp add: run_nil)
next
  case (snoc x xs)
  obtain t s where r: "run env xs ts = (t, s)" by (cases "run env xs ts")
  have "events s = []"
    using run_events [of env xs ts] r assms(1) by simp
  from step_result_empty [OF this, of env t x] snoc r show ?case
    by (simp add: run_snoc)
qed

lemma completion_never_accumulates:
  "completion env t os ops = None \<or> completion env t os ops = Some []"
proof (cases "subscribe env t os")
  case (Inl err)
  then show ?thesis by (simp add: completion_def)
next
  case (Inr s)
  with subscribe_fresh [OF Inr] run_result_empty [of "(t, s)" env ops] show ?thesis
    by (simp add: completion_def)
qed

text \<open>
  C1. In the scenario of the specification the event with id A is verified, matches the
  filter and is emitted on the live stream (the listener of \<^verbatim>\<open>event\<close> is called with it),
  both relays signal the end of stored events and the subscription closes; the
  completion value it resolves is the empty list, not the one-element list of that
  event: no method of the class ever appends to \<^verbatim>\<open>this.events\<close>.
\<close>

theorem scenario_completion_empty:
  "completion scenario_env 1000 scenario_opts scenario_ops = Some [] \<and>
   Invoke 1 ''event'' (PEvent e1) \<in>
     set (trace (snd (run scenario_env scenario_ops (1000, scenario_sub))))"
  by (simp add: completion_def scenario_subscribe scenario_run)

section \<open>Early close on end of stored events\<close>

text \<open>
  When the relay list of the options has no duplicates, only its relays signal and no
  listener of \<^verbatim>\<open>eose\<close> throws, the signal that completes the set closes the subscription.
\<close>

lemma onEose_last_relay_closes:
  assumes "t \<noteq> 0" and "truthy_num (timeout (opts_of s))"
    and "distinct (relays (opts_of s))" and "distinct (eose s)"
    and "insert u (set (eose s)) = set (relays (opts_of s))"
    and "\<not> emit_throws env ''eose'' (PUrl u) s"
  shows "is_closed (onEose env t u s)"
proof -
  let ?e = "if u \<in> set (eose s) then eose s else eose s @ [u]"
  have "distinct ?e" "set ?e = set (relays (opts_of s))"
    using assms(4,5) by auto
  then have "length ?e = length (relays (opts_of s))"
    using assms(3) by (metis distinct_card)
  then have "onEose env t u s = close env t (add_eose u (emit env ''eose'' (PUrl u) s))"
    using assms(2,6)
    by (cases "u \<in> set (eose s)") (simp_all add: onEose_def Let_def emit_keeps add_eose_def)
  with assms(1) show ?thesis
    by (simp add: is_closed_close)
qed

text \<open>
  C4. When the options name relay R1 twice and carry a timeout, the executor queries the
  one resolved URL R1; after R1 has signalled the end of stored events, every queried
  relay has signalled, yet the subscription is not closed and its completion value is
  pending: \<^verbatim>\<open>onEose\<close> compares the size of the set of signalling relays, 1, with the
  length of the relay list of the options, 2.
\<close>

theorem eose_duplicate_relay_stays_open:
  "subscribe scenario_env 1000 twice_opts = Inr twice_sub \<and>
   executor twice_sub = Some [''R1''] \<and>
   eose (snd (run scenario_env [Eose ''R1''] (1000, twice_sub))) = [''R1''] \<and>
   \<not> is_closed (snd (run scenario_env [Eose ''R1''] (1000, twice_sub))) \<and>
   result (snd (run scenario_env [Eose ''R1''] (1000, twice_sub))) = None"
  by (simp add: open_defs scenario_defs twice_sub_def sub_defs)

section \<open>Rejected events\<close>

text \<open>
  C3. If the signature of a delivered event does not verify (the check returns false or
  throws), or the event matches none of the subscription's filters, then \<^verbatim>\<open>onEvent\<close>
  appends to the trace nothing (the id was seen before), or the signature check and a
  warning, or the signature check, the filter check and a warning. In particular the
  event is not handed to the projection registry, not emitted on the live stream, and no
  listener is called.
\<close>

theorem rejected_event_not_propagated:
  assumes "verifySignature env (default_content e) \<noteq> Some True \<or>
           \<not> matchFilters env (filters (opts_of s)) (default_content e)"
  shows "trace (onEvent env url e s) = trace s @ new_effects s (onEvent env url e s) \<and>
         \<not> list_ex propagates (new_effects s (onEvent env url e s)) \<and>
         (new_effects s (onEvent env url e s) = [] \<or>
          new_effects s (onEvent env url e s) =
            [VerifySignature (default_content e),
             Warn ''Signature verification failed'' (default_content e)] \<or>
          new_effects s (onEvent env url e s) =
            [VerifySignature (default_content e), MatchFilters (default_content e),
             Warn ''Event failed to match filter'' (default_content e)])"
  using assms
  by (auto simp add: onEvent_def new_effects_def log_effect_def Let_def split: option.splits)

theorem rejected_event_not_propagated_witness:
  "\<not> matchFilters scenario_env (filters (opts_of scenario_sub)) (default_content e3) \<and>
   \<not> list_ex propagates (new_effects scenario_sub (onEvent scenario_env ''R1'' e3 scenario_sub)) \<and>
   new_effects scenario_sub (onEvent scenario_env ''R1'' e3 scenario_sub) =
     [VerifySignature e3, MatchFilters e3, Warn ''Event failed to match filter'' e3]"
proof -
  have h: "\<not> matchFilters scenario_env (filters (opts_of scenario_sub)) (default_content e3)"
    by (simp add: scenario_defs e3_def default_content_def)
  have d: "default_content e3 = e3"
    by (simp add: default_content_def e3_def e1_def)
  have v: "verifySignature scenario_env e3 = Some True"
    by (simp add: scenario_env_def)
  have n: "new_effects scenario_sub (onEvent scenario_env ''R1'' e3 scenario_sub) =
             [VerifySignature e3, MatchFilters e3, Warn ''Event failed to match filter'' e3]"
    by (simp add: new_effects_def sub_defs scenario_defs e3_def)
  from rejected_event_not_propagated [of scenario_env e3 scenario_sub "''R1''"] h d v n
  show ?thesis
    by simp
qed

section \<open>Failing at open time\<close>

text \<open>
  C8. Opening a subscription fails, and the failure is the value that \<^verbatim>\<open>subscribe\<close>
  returns to its caller, exactly when the relay list is empty, the filter list is empty,
  or one of the filters is malformed. The class itself checks nothing: the failures are
  those of the collaborators that resolve the relay URLs and issue the filters.
\<close>

theorem open_fails_fast:
  "isl (subscribe env t os) =
     (relays os = [] \<or> filters os = [] \<or> \<not> list_all (wellFormed env) (filters os))"
  by (simp add: open_defs Let_def split: option.splits)

theorem open_fails_fast_witness:
  "isl (subscribe scenario_env 1000 (scenario_opts\<lparr>relays := []\<rparr>)) \<and>
   isl (subscribe scenario_env 1000 (scenario_opts\<lparr>filters := []\<rparr>)) \<and>
   \<not> isl (subscribe scenario_env 1000 scenario_opts)"
  using open_fails_fast [of scenario_env 1000 "scenario_opts\<lparr>relays := []\<rparr>"]
    open_fails_fast [of scenario_env 1000 "scenario_opts\<lparr>filters := []\<rparr>"]
    open_fails_fast [of scenario_env 1000 scenario_opts]
  by (simp add: scenario_opts_def scenario_env_def)

section \<open>Channel ownership\<close>

text \<open>
  C10. The handler of kind 41 leaves the store as it is when the event has no \<^verbatim>\<open>e\<close> tag
  (or an empty one), or when the author of the event is not the owner recorded in the
  channel that the tag names, which includes a channel that is absent or has no recorded
  owner. Conversely, when the handler changes the store, the event names a channel whose
  recorded owner is the author of the event.
\<close>

theorem handler41_owner_only:
  "(getMeta env e ''e'' = None \<or> getMeta env e ''e'' = Some [] \<or>
     (\<exists>cid. getMeta env e ''e'' = Some cid \<and> owner_of (st cid) \<noteq> Some (pubkey e))
      \<longrightarrow> handler41 env e st = st) \<and>
   (handler41 env e st \<noteq> st \<longrightarrow>
      (\<exists>cid. getMeta env e ''e'' = Some cid \<and> cid \<noteq> [] \<and>
             owner_of (st cid) = Some (pubkey e)))"
  by (auto simp add: handler41_def split: option.splits)

theorem handler41_owner_only_witness:
  "getMeta scenario_env e41 ''e'' = Some ''channel-X'' \<and>
   owner_of (owned_store ''channel-X'') \<noteq> Some (pubkey e41) \<and>
   handler41 scenario_env e41 owned_store = owned_store \<and>
   handler41 scenario_env (e41\<lparr>pubkey := ''P''\<rparr>) owned_store \<noteq> owned_store \<and>
   owner_of (owned_store ''channel-X'') = Some (pubkey (e41\<lparr>pubkey := ''P''\<rparr>))"
proof -
  have g: "getMeta scenario_env e41 ''e'' = Some ''channel-X''"
    by (simp add: scenario_env_def first_tag_def e41_def e1_def)
  have o: "owner_of (owned_store ''channel-X'') = Some ''P''"
    by (simp add: owner_of_def owned_store_def)
  have p: "pubkey e41 = ''Q''"
    by (simp add: e41_def)
  have c: "handler41 scenario_env (e41\<lparr>pubkey := ''P''\<rparr>) owned_store ''channel-X'' \<noteq>
           owned_store ''channel-X''"
    by (simp add: handler41_def scenario_env_def first_tag_def e41_def e1_def owner_of_def
        owned_store_def updateKey_def empty_channel_def Let_def)
  then have n: "handler41 scenario_env (e41\<lparr>pubkey := ''P''\<rparr>) owned_store \<noteq> owned_store"
    by metis
  from handler41_owner_only [of scenario_env e41 owned_store] g o p n show ?thesis
    by simp
qed

section \<open>Deduplication\<close>

lemma onEvent_first:
  assumes "seen s (id_ev e) = None"
  shows "trace (onEvent env url e s) = trace s @ pipeline env s (default_content e)"
  using assms
  by (simp add: onEvent_def pipeline_def log_effect_def emit_def emit_effects_def
      emit_throws_def registered_under_def Let_def)

lemma onEvent_again:
  assumes "seen s (id_ev e) = Some xs"
  shows "onEvent env url e s =
           s\<lparr>seen := (seen s)(id_ev e \<mapsto>
                (if url \<notin> set xs \<and> isShareableRelay env url then xs @ [url] else xs))\<rparr>"
proof -
  have "(seen s)(id_ev e \<mapsto> xs) = seen s"
    using assms by (simp add: fun_upd_idem)
  then have "s\<lparr>seen := (seen s)(id_ev e \<mapsto> xs)\<rparr> = s"
    by simp
  with assms show ?thesis
    by (simp add: onEvent_def)
qed

lemma id_default_content: "id_ev (default_content e) = id_ev e"
  by (simp add: default_content_def)

lemma onEvent_seen_first:
  assumes "seen s (id_ev e) = None"
  shows "seen (onEvent env url e s) =
           (seen s)(id_ev e \<mapsto> (if isShareableRelay env url then [url] else []))"
  using assms
  by (simp add: onEvent_def log_effect_def emit_def id_default_content Let_def)

lemma onEvent_seen_grows: "seen s i \<noteq> None \<Longrightarrow> seen (onEvent env url e s) i \<noteq> None"
proof (cases "seen s (id_ev e)")
  case None
  assume "seen s i \<noteq> None"
  with None show ?thesis by (simp add: onEvent_seen_first)
next
  case (Some xs)
  assume "seen s i \<noteq> None"
  with Some show ?thesis by (simp add: onEvent_again)
qed

lemma pipeline_about:
  assumes "id_ev d \<noteq> i"
  shows "filter (about i) (pipeline env s d) = []"
  using assms by (auto simp add: pipeline_def emit_effects_def filter_empty_conv)

lemma onEvent_about:
  assumes "seen s i \<noteq> None"
  shows "filter (about i) (trace (onEvent env url e s)) = filter (about i) (trace s)"
proof (cases "seen s (id_ev e)")
  case (Some xs)
  then show ?thesis by (simp add: onEvent_again)
next
  case None
  with assms have ne: "id_ev (default_content e) \<noteq> i" by (auto simp add: id_default_content)
  with None show ?thesis by (simp add: onEvent_first pipeline_about)
qed

lemma emit_about:
  "filter (about i) (trace (emit env n (PUrl u) s)) = filter (about i) (trace s)"
  "filter (about i) (trace (emit env n (PEvents es) s)) = filter (about i) (trace s)"
  by (simp_all add: emit_def emit_effects_def o_def)

lemma close_about: "filter (about i) (trace (close env t s)) = filter (about i) (trace s)"
  by (simp add: close_def resolve_def log_effect_def emit_about Let_def)

lemma onEose_about:
  "filter (about i) (trace (onEose env t u s)) = filter (about i) (trace s)"
  by (rule onEose_cases) (simp_all add: emit_about add_eose_keeps close_about)

lemma onEose_seen: "seen (onEose env t u s) = seen s"
  by (rule onEose_cases) (simp_all add: emit_keeps add_eose_keeps close_keeps)

lemma step_about:
  assumes "seen (snd ts) i \<noteq> None"
  shows "seen (snd (step env ts x)) i \<noteq> None \<and>
         filter (about i) (trace (snd (step env ts x))) = filter (about i) (trace (snd ts))"
  using assms
  by (cases ts; cases x)
    (simp_all add: onEvent_seen_grows onEvent_about close_about close_keeps onEose_about
      onEose_seen on_keeps)

lemma run_about:
  assumes "seen (snd ts) i \<noteq> None"
  shows "seen (snd (run env ops ts)) i \<noteq> None \<and>
         filter (about i) (trace (snd (run env ops ts))) = filter (about i) (trace (snd ts))"
proof (induction ops rule: rev_induct)
  case Nil
  show ?case using assms by (simp add: run_nil)
next
  case (snoc x xs)
  then show ?case using step_about [of "run env xs ts" i env x] by (simp add: run_snoc)
qed

lemma onEvent_records: "seen (onEvent env url e s) (id_ev e) \<noteq> None"
  by (cases "seen s (id_ev e)") (simp_all add: onEvent_seen_first onEvent_again)

text \<open>
  C2. When an event whose id the subscription has not seen is delivered, the processing
  pipeline (signature check, filter check, hand-over to the projection registry, emission
  on the live stream) runs once, each stage at most once and in this order. Whatever the
  environment does afterwards, the pipeline effects that concern this id stay those of
  the first delivery, and a later delivery of an event with the same id, from any relay,
  changes nothing but the attribution list of that id: the relay is appended when it is
  not in the list yet and is shareable, and the list is left as it is otherwise.
\<close>

theorem duplicate_delivery_processed_once:
  assumes "seen s (id_ev e) = None" and "id_ev e' = id_ev e"
    and "s2 = snd (run env ops (t, onEvent env url e s))"
  shows "trace (onEvent env url e s) = trace s @ pipeline env s (default_content e) \<and>
         length (filter is_verify (pipeline env s (default_content e))) = 1 \<and>
         filter (about (id_ev e)) (trace s2) =
           filter (about (id_ev e)) (trace (onEvent env url e s)) \<and>
         (\<exists>xs. seen s2 (id_ev e) = Some xs \<and>
               onEvent env url' e' s2 =
                 s2\<lparr>seen := (seen s2)(id_ev e \<mapsto>
                      (if url' \<notin> set xs \<and> isShareableRelay env url' then xs @ [url'] else xs))\<rparr>)"
proof -
  have a: "trace (onEvent env url e s) = trace s @ pipeline env s (default_content e)"
    using assms(1) by (simp add: onEvent_first)
  have "seen (snd (t, onEvent env url e s)) (id_ev e) \<noteq> None"
    by (simp add: onEvent_records)
  from run_about [OF this, of env ops]
  have b: "seen s2 (id_ev e) \<noteq> None"
    and c: "filter (about (id_ev e)) (trace s2) =
            filter (about (id_ev e)) (trace (onEvent env url e s))"
    by (simp_all add: assms(3))
  from b obtain xs where xs: "seen s2 (id_ev e) = Some xs" by auto
  then have "seen s2 (id_ev e') = Some xs" using assms(2) by simp
  have d: "length (filter is_verify (pipeline env s (default_content e))) = 1"
    by (simp add: pipeline_def emit_effects_def o_def)
  from onEvent_again [OF \<open>seen s2 (id_ev e') = Some xs\<close>, of env url'] assms(2) xs a c d
  show ?thesis
    by simp
qed

theorem duplicate_delivery_processed_once_witness:
  "seen scenario_sub (id_ev e1) = None \<and>
   trace (onEvent scenario_env ''R1'' e1 scenario_sub) =
     trace scenario_sub @ pipeline scenario_env scenario_sub (default_content e1) \<and>
   onEvent scenario_env ''R2'' e1 (onEvent scenario_env ''R1'' e1 scenario_sub) =
     (onEvent scenario_env ''R1'' e1 scenario_sub)\<lparr>seen := [''A'' \<mapsto> [''R1'', ''R2'']]\<rparr>"
proof -
  have h: "seen scenario_sub (id_ev e1) = None"
    by (simp add: scenario_sub_def)
  have x: "seen (onEvent scenario_env ''R1'' e1 scenario_sub) = [''A'' \<mapsto> [''R1'']]"
    by (simp add: onEvent_seen_first h) (simp add: scenario_defs)
  from duplicate_delivery_processed_once [where s = scenario_sub and e = e1 and e' = e1
      and env = scenario_env and ops = "[]" and t = 1000 and url = "''R1''" and url' = "''R2''",
      OF h refl refl]
  show ?thesis
    using h x by (simp add: run_nil) (simp add: scenario_defs)
qed

section \<open>Deliveries after close\<close>

lemma emit_throws_listeners:
  "listeners s = listeners s' \<Longrightarrow> emit_throws env n p s = emit_throws env n p s'"
  by (simp add: emit_throws_def registered_under_def)

lemma close_listeners:
  assumes "\<not> is_closed s" and "sub s" and "executor s \<noteq> None"
  shows "listeners (close env t s) =
           (if emit_throws env ''close'' (PEvents (events s)) s then listeners s else [])"
  using assms
  by (auto simp add: close_def resolve_def log_effect_def emit_def emit_throws_def
      registered_under_def Let_def)

lemma close_wiring:
  "sub (close env t s) = sub s" "executor (close env t s) = executor s"
  by (simp_all add: close_def resolve_def log_effect_def emit_def Let_def)

lemma onEose_wiring:
  "sub (onEose env t u s) = sub s" "executor (onEose env t u s) = executor s"
  by (rule onEose_cases; simp add: emit_keeps add_eose_keeps close_wiring)+

lemma step_wiring:
  "sub (snd (step env ts x)) = sub (snd ts)"
  "executor (snd (step env ts x)) = executor (snd ts)"
  by (cases ts; cases x; simp add: onEvent_keeps close_wiring onEose_wiring on_keeps)+

lemma run_wiring:
  "sub (snd (run env ops ts)) = sub (snd ts)"
  "executor (snd (run env ops ts)) = executor (snd ts)"
  by (induction ops rule: rev_induct; simp add: run_nil run_snoc step_wiring)+

lemma onEose_closed:
  assumes "is_closed s"
  shows "is_closed (onEose env t u s) \<and> listeners (onEose env t u s) = listeners s"
proof (rule onEose_cases)
  show "is_closed (emit env ''eose'' (PUrl u) s) \<and>
        listeners (emit env ''eose'' (PUrl u) s) = listeners s"
    using assms by (simp add: emit_keeps)
  show "is_closed (add_eose u (emit env ''eose'' (PUrl u) s)) \<and>
        listeners (add_eose u (emit env ''eose'' (PUrl u) s)) = listeners s"
    using assms by (simp add: emit_keeps add_eose_keeps)
  then show "is_closed (close env t (add_eose u (emit env ''eose'' (PUrl u) s))) \<and>
        listeners (close env t (add_eose u (emit env ''eose'' (PUrl u) s))) = listeners s"
    by (simp add: close_closed)
qed

lemma step_closed:
  assumes "is_closed (snd ts)"
  shows "is_closed (snd (step env ts x)) \<and>
         listeners (snd (step env ts x)) = listeners (snd ts) @ registered [x]"
proof (cases ts)
  case (Pair t s)
  have e: "is_closed (onEvent env u ev s) = is_closed s" for u ev
    by (simp add: is_closed_def onEvent_keeps)
  have o: "listeners (on n c s) = listeners s @ [(n, c)]" for n c
    by (simp add: on_def)
  from assms Pair show ?thesis
    by (cases x) (simp_all add: onEose_closed close_closed onEvent_keeps e on_keeps o)
qed

lemma run_cons: "run env (x # ops) ts = run env ops (step env ts x)"
  by (simp add: run_def)

lemma registered_cons: "registered (x # ops) = registered [x] @ registered ops"
  by (cases x) simp_all

lemma run_closed:
  assumes "is_closed (snd ts)"
  shows "is_closed (snd (run env ops ts)) \<and>
         listeners (snd (run env ops ts)) = listeners (snd ts) @ registered ops"
  using assms
proof (induction ops arbitrary: ts)
  case Nil
  then show ?case by (simp add: run_nil)
next
  case (Cons x ops)
  from step_closed [OF Cons.prems, of env x] Cons.IH [of "step env ts x"]
  show ?case
    by (simp add: run_cons registered_cons [of x ops])
qed

lemma closing_step:
  assumes "sub s" and "executor s \<noteq> None" and "\<not> is_closed s"
    and "is_closed (snd (step env (t, s) x))"
  shows "listeners (snd (step env (t, s) x)) =
           (if emit_throws env ''close'' (PEvents (events s)) s then listeners s else [])"
proof (cases x)
  case (Deliver u e)
  with assms(3,4) show ?thesis by (simp add: is_closed_def onEvent_keeps)
next
  case (Eose u)
  let ?s2 = "add_eose u (emit env ''eose'' (PUrl u) s)"
  have o: "\<not> is_closed ?s2" "sub ?s2" "executor ?s2 \<noteq> None" "listeners ?s2 = listeners s"
      "events ?s2 = events s"
    using assms(1,2,3) by (simp_all add: emit_keeps add_eose_keeps)
  have "onEose env t u s = close env t ?s2"
  proof (rule ccontr)
    assume "onEose env t u s \<noteq> close env t ?s2"
    then have "onEose env t u s = emit env ''eose'' (PUrl u) s \<or> onEose env t u s = ?s2"
      by (auto simp add: onEose_def Let_def)
    with assms(3,4) Eose o(1) show False
      by (auto simp add: emit_keeps)
  qed
  with close_listeners [OF o(1,2,3), of env t] o(4,5)
    emit_throws_listeners [OF o(4), of env "''close''" "PEvents (events s)"] Eose
  show ?thesis by simp
next
  case Close
  with close_listeners [OF assms(3,1,2), of env t] show ?thesis by simp
next
  case (On n c)
  with assms(3,4) show ?thesis by (simp add: on_keeps)
next
  case (Tick d)
  with assms(3,4) show ?thesis by simp
qed

text \<open>
  A subscription that is closed after a script was closed by one of its operations.
\<close>

lemma closed_run_decomposes:
  assumes "\<not> is_closed (snd ts)" and "is_closed (snd (run env ops ts))"
  shows "\<exists>before x after. ops = before @ x # after \<and>
           \<not> is_closed (snd (run env before ts)) \<and>
           is_closed (snd (step env (run env before ts) x))"
  using assms(2)
proof (induction ops rule: rev_induct)
  case Nil
  with assms(1) show ?case by (simp add: run_nil)
next
  case (snoc y ys)
  show ?case
  proof (cases "is_closed (snd (run env ys ts))")
    case True
    from snoc.IH [OF True] obtain before x after where
      "ys = before @ x # after" "\<not> is_closed (snd (run env before ts))"
      "is_closed (snd (step env (run env before ts) x))"
      by blast
    then have "ys @ [y] = before @ x # (after @ [y]) \<and>
        \<not> is_closed (snd (run env before ts)) \<and>
        is_closed (snd (step env (run env before ts) x))"
      by simp
    then show ?thesis by blast
  next
    case False
    with snoc.prems have "ys @ [y] = ys @ y # [] \<and>
        \<not> is_closed (snd (run env ys ts)) \<and>
        is_closed (snd (step env (run env ys ts) y))"
      by (simp add: run_snoc)
    then show ?thesis by blast
  qed
qed

lemma onEvent_ignores_closed: "onEvent env url e (s\<lparr>closed := c\<rparr>) = (onEvent env url e s)\<lparr>closed := c\<rparr>"
  by (simp add: onEvent_def log_effect_def emit_def emit_effects_def emit_throws_def
      registered_under_def Let_def split: option.splits)

lemma invoked_subset: "set (invoked env p cs) \<subseteq> set cs"
  by (induction cs) auto

lemma called_in_append: "called_in (xs @ ys) = called_in xs @ called_in ys"
  by (induction xs rule: called_in.induct) simp_all

lemma called_in_invokes: "called_in (map (\<lambda>c. Invoke c n p) cs) = map (\<lambda>c. (n, c)) cs"
  by (induction cs) simp_all

lemma called_in_emit: "set (called_in (emit_effects env n p s)) \<subseteq> set (listeners s)"
proof -
  have "set (invoked env p (registered_under n s)) \<subseteq> snd ` {l \<in> set (listeners s). fst l = n}"
    using invoked_subset [of env p "registered_under n s"]
    by (simp add: registered_under_def)
  then show ?thesis
    by (auto simp add: emit_effects_def called_in_append called_in_invokes)
qed

lemma called_in_pipeline: "set (called_in (pipeline env s d)) \<subseteq> set (listeners s)"
  using called_in_emit [of env "''event''" "PEvent d" s]
  by (simp add: pipeline_def called_in_append)

lemma onEvent_new_effects:
  "new_effects s (onEvent env url e s) =
     (if seen s (id_ev e) = None then pipeline env s (default_content e) else [])"
  by (cases "seen s (id_ev e)") (simp_all add: new_effects_def onEvent_first onEvent_again)

lemma push_in_pipeline:
  "ProjectionsPush d \<in> set (pipeline env s d) \<longleftrightarrow>
     verifySignature env d = Some True \<and> matchFilters env (filters (opts_of s)) d \<and>
     shouldProject (opts_of s) \<noteq> Some False"
  by (auto simp add: pipeline_def emit_effects_def)

text \<open>
  In the scenario with a listener of \<^verbatim>\<open>close\<close> that throws, the subscription is closed
  and keeps its listeners.
\<close>

lemma throwing_close_keeps_listeners:
  "is_closed (snd (run throwing_env scenario_ops (1000, scenario_sub))) \<and>
   listeners (snd (run throwing_env scenario_ops (1000, scenario_sub))) =
     listeners scenario_sub \<and>
   unsubscribes (snd (run throwing_env scenario_ops (1000, scenario_sub))) = 1"
  by (simp add: throwing_env_def scenario_defs sub_defs unsubscribes_def)

text \<open>
  C5, as the claim states it, fails: in the scenario, after the subscription has closed, the
  delivery of a new event that verifies and matches the filter hands it to the projection
  registry.
\<close>

theorem closed_subscription_projects_counterexample:
  "is_closed (snd (run scenario_env scenario_ops (1000, scenario_sub))) \<and>
   new_effects (snd (run scenario_env scenario_ops (1000, scenario_sub)))
     (onEvent scenario_env ''R1'' e2 (snd (run scenario_env scenario_ops (1000, scenario_sub)))) =
     [VerifySignature e2, MatchFilters e2, ProjectionsPush e2, Emit ''event'' (PEvent e2)]"
  by (simp add: scenario_run) (simp add: scenario_defs sub_defs new_effects_def)

text \<open>
  C5, amended. Take a subscription that \<^verbatim>\<open>subscribe\<close> returned, any operations before
  the operation that closes it (a call of \<^verbatim>\<open>close\<close> or the signal of the last relay),
  and any operations after it. Then the subscription stays closed, and a further delivery
  is processed as on an open subscription, since \<^verbatim>\<open>onEvent\<close> does not look at the
  closed state: the delivery appends nothing to the trace when the id was seen and the
  whole pipeline otherwise, so that an event that is new, verifies and satisfies the
  filters is handed to the projection registry unless \<^verbatim>\<open>shouldProject\<close> is false. The
  listeners at that time, the only ones that the emission can call, are those registered
  through the handle since the closing operation, preceded by those registered before it
  only if a listener of \<^verbatim>\<open>close\<close> threw, in which case \<^verbatim>\<open>close\<close> did not reach the
  release of the listeners.
\<close>

theorem delivery_after_close:
  assumes "subscribe env t0 os = Inr s0"
    and "run env before (t0, s0) = (t, s)"
    and "\<not> is_closed s" and "is_closed (snd (step env (t, s) x))"
    and "s' = snd (run env after (step env (t, s) x))"
  shows "is_closed s' \<and>
         listeners s' =
           (if emit_throws env ''close'' (PEvents (events s)) s then listeners s else []) @
           registered after \<and>
         onEvent env url e (s'\<lparr>closed := c\<rparr>) = (onEvent env url e s')\<lparr>closed := c\<rparr> \<and>
         trace (onEvent env url e s') =
           trace s' @ (if seen s' (id_ev e) = None then pipeline env s' (default_content e)
                       else []) \<and>
         (ProjectionsPush (default_content e) \<in> set (new_effects s' (onEvent env url e s'))
            \<longleftrightarrow> passes env s' e \<and> shouldProject (opts_of s') \<noteq> Some False) \<and>
         set (called_in (new_effects s' (onEvent env url e s'))) \<subseteq> set (listeners s')"
proof -
  from subscribe_fresh [OF assms(1)] run_wiring [of env before "(t0, s0)"] assms(2)
  have w: "sub s" "executor s \<noteq> None"
    by simp_all
  have l: "listeners (snd (step env (t, s) x)) =
             (if emit_throws env ''close'' (PEvents (events s)) s then listeners s else [])"
    by (rule closing_step [OF w assms(3,4)])
  from run_closed [OF assms(4), of env after] l assms(5)
  have a: "is_closed s'"
    and b: "listeners s' =
              (if emit_throws env ''close'' (PEvents (events s)) s then listeners s else []) @
              registered after"
    by simp_all
  have d: "trace (onEvent env url e s') =
             trace s' @ (if seen s' (id_ev e) = None then pipeline env s' (default_content e)
                         else [])"
    by (cases "seen s' (id_ev e)") (simp_all add: onEvent_first onEvent_again)
  have p: "ProjectionsPush (default_content e) \<in> set (new_effects s' (onEvent env url e s'))
             \<longleftrightarrow> passes env s' e \<and> shouldProject (opts_of s') \<noteq> Some False"
    by (simp add: onEvent_new_effects push_in_pipeline passes_def)
  have q: "set (called_in (new_effects s' (onEvent env url e s'))) \<subseteq> set (listeners s')"
    using called_in_pipeline [of env s' "default_content e"] by (simp add: onEvent_new_effects)
  from a b d p q show ?thesis
    by (simp add: onEvent_ignores_closed)
qed

theorem delivery_after_close_witness:
  "subscribe scenario_env 1000 scenario_opts = Inr scenario_sub \<and>
   \<not> is_closed (snd (run scenario_env scenario_before (1000, scenario_sub))) \<and>
   is_closed (snd (step scenario_env (run scenario_env scenario_before (1000, scenario_sub))
                     (Eose ''R2''))) \<and>
   is_closed late_sub \<and> listeners late_sub = [(''event'', 7)] \<and>
   new_effects late_sub (onEvent scenario_env ''R1'' e2 late_sub) =
     [VerifySignature e2, MatchFilters e2, ProjectionsPush e2, Emit ''event'' (PEvent e2),
      Invoke 7 ''event'' (PEvent e2)]"
proof -
  obtain t s where ts: "run scenario_env scenario_before (1000, scenario_sub) = (t, s)"
    by (cases "run scenario_env scenario_before (1000, scenario_sub)")
  have nc: "\<not> is_closed (snd (run scenario_env scenario_before (1000, scenario_sub)))"
    by (simp add: scenario_before_def scenario_defs sub_defs)
  have so: "scenario_ops = scenario_before @ [Eose ''R2'']"
    by (simp add: scenario_ops_def scenario_before_def)
  have st: "step scenario_env (run scenario_env scenario_before (1000, scenario_sub))
              (Eose ''R2'') = run scenario_env scenario_ops (1000, scenario_sub)"
    by (simp add: so run_snoc)
  have cl: "is_closed (snd (step scenario_env
              (run scenario_env scenario_before (1000, scenario_sub)) (Eose ''R2'')))"
    by (simp add: st scenario_run is_closed_def truthy_num_def)
  have ls: "late_sub =
              (snd (run scenario_env scenario_ops (1000, scenario_sub)))
                \<lparr>listeners := [(''event'', 7)]\<rparr>"
    by (simp add: late_sub_def st scenario_run) (simp add: run_def on_def)
  have ne: "new_effects late_sub (onEvent scenario_env ''R1'' e2 late_sub) =
              [VerifySignature e2, MatchFilters e2, ProjectionsPush e2,
               Emit ''event'' (PEvent e2), Invoke 7 ''event'' (PEvent e2)]"
    by (simp add: ls scenario_run) (simp add: scenario_defs sub_defs new_effects_def)
  have l5: "late_sub = snd (run scenario_env [On ''event'' 7] (step scenario_env (t, s) (Eose ''R2'')))"
    by (simp add: late_sub_def ts)
  from nc cl ts have nc': "\<not> is_closed s" and cl': "is_closed (snd (step scenario_env (t, s) (Eose ''R2'')))"
    by simp_all
  have ll: "is_closed late_sub" "listeners late_sub = [(''event'', 7)]"
    by (simp_all add: ls scenario_run is_closed_def truthy_num_def)
  from delivery_after_close [OF scenario_subscribe ts nc' cl' l5, of "''R1''" e2 None]
    nc cl ne ll
  show ?thesis
    by (simp add: scenario_subscribe)
qed

section \<open>Idempotent projection\<close>

lemma uniqBy_from_absorb:
  "met \<subseteq> met' \<Longrightarrow> uniqBy_from f met' (uniqBy_from f met xs) = uniqBy_from f met' xs"
proof (induction xs arbitrary: met met')
  case Nil
  show ?case by simp
next
  case (Cons x xs)
  show ?case
  proof (cases "f x \<in> met")
    case True
    with Cons show ?thesis by auto
  next
    case False
    have sub1: "insert (f x) met \<subseteq> insert (f x) met'" using Cons.prems by auto
    show ?thesis
    proof (cases "f x \<in> met'")
      case True
      then have "insert (f x) met \<subseteq> met'" using Cons.prems by auto
      from Cons.IH [OF this] False True show ?thesis by simp
    next
      case nin: False
      from Cons.IH [OF sub1] False nin show ?thesis by simp
    qed
  qed
qed

lemma uniqBy_from_append:
  "uniqBy_from f met (xs @ ys) = uniqBy_from f met xs @ uniqBy_from f (met \<union> f ` set xs) ys"
  by (induction xs arbitrary: met) (simp_all add: insert_absorb)

lemma uniqBy_from_nil: "f ` set xs \<subseteq> met \<Longrightarrow> uniqBy_from f met xs = []"
  by (induction xs) simp_all

lemma uniq_prepend_twice: "uniq (a @ uniq (a @ b)) = uniq (a @ b)"
proof -
  have "uniqBy_from (\<lambda>x. x) (set a) (uniqBy_from (\<lambda>x. x) {} (a @ b)) =
        uniqBy_from (\<lambda>x. x) (set a) (a @ b)"
    by (rule uniqBy_from_absorb) simp
  also have "\<dots> = uniqBy_from (\<lambda>x. x) (set a) b"
    by (simp add: uniqBy_from_append uniqBy_from_nil)
  finally show ?thesis
    by (simp add: uniq_def uniqBy_def uniqBy_from_append)
qed

lemma uniqBy_cons_twice: "uniqBy f (x # uniqBy f (x # ms)) = uniqBy f (x # ms)"
  by (simp add: uniqBy_def uniqBy_from_absorb)

lemma assoc_owner_twice: "assoc_owner pk (assoc_owner pk c) = assoc_owner pk c"
  by (simp add: assoc_owner_def)

lemma handler40_twice: "handler40 env e (handler40 env e st) = handler40 env e st"
  by (auto simp add: handler40_def updateKey_def Let_def assoc_owner_def split: option.splits)

lemma handler42_twice: "handler42 env pks e (handler42 env pks e st) = handler42 env pks e st"
  by (auto simp add: handler42_def Let_def or_nil_def or_zero_def uniq_prepend_twice
      uniqBy_cons_twice split: option.splits)

text \<open>The handler of kind 42 on the event of the scenario and an empty store.\<close>

lemma handler42_scenario:
  "handler42 scenario_env [] e1 Map.empty =
     [''channel-X'' \<mapsto> empty_channel\<lparr>id_ch := Some ''channel-X'', type_ch := Some ''nip28'',
        relays_ch := Some [], messages := Some [e1], last_received := Some 100\<rparr>]"
  by (simp add: handler42_def scenario_env_def first_tag_def e1_def empty_channel_def
      uniq_def uniqBy_def or_nil_def or_zero_def Let_def)

text \<open>
  C9. Applying the handler of kind 40, or the handler of kind 42, to the same event twice
  in succession leaves the store of channels as one application leaves it: the message
  list is merged by unique id, the relay list is deduplicated, the timestamps
  \<^verbatim>\<open>last_sent\<close> and \<^verbatim>\<open>last_received\<close> keep the maximum, and a channel's metadata is
  replaced only by a newer timestamp.
\<close>

theorem channel_handlers_idempotent:
  "handler40 env e (handler40 env e st) = handler40 env e st \<and>
   handler42 env pks e (handler42 env pks e st) = handler42 env pks e st"
  by (simp add: handler40_twice handler42_twice)

section \<open>The cursor of the persistent loop\<close>

lemma onEose_opts: "opts_of (onEose env t u s) = opts_of s"
  by (rule onEose_cases) (simp_all add: emit_keeps add_eose_keeps close_keeps)

lemma step_opts: "opts_of (snd (step env ts x)) = opts_of (snd ts)"
  by (cases ts; cases x) (simp_all add: onEvent_keeps close_keeps onEose_opts on_keeps)

lemma run_opts: "opts_of (snd (run env ops ts)) = opts_of (snd ts)"
  by (induction ops rule: rev_induct) (simp_all add: run_nil run_snoc step_opts)

lemma close_opened: "opened (close env t s) = opened s"
  by (simp add: close_def resolve_def log_effect_def emit_def Let_def)

lemma onEose_opened: "opened (onEose env t u s) = opened s"
  by (rule onEose_cases) (simp_all add: emit_def add_eose_def close_opened)

lemma onEvent_opened: "opened (onEvent env u e s) = opened s"
  by (simp add: onEvent_def emit_def log_effect_def Let_def split: option.splits)

lemma step_opened: "opened (snd (step env ts x)) = opened (snd ts)"
  by (cases ts; cases x) (simp_all add: onEvent_opened close_opened onEose_opened on_def)

lemma run_opened: "opened (snd (run env ops ts)) = opened (snd ts)"
  by (induction ops rule: rev_induct) (simp_all add: run_nil run_snoc step_opened)

lemma step_clock: "fst ts \<le> fst (step env ts x)"
  by (cases ts; cases x) simp_all

lemma run_clock: "fst ts \<le> fst (run env ops ts)"
proof (induction ops rule: rev_induct)
  case Nil
  show ?case by (simp add: run_nil)
next
  case (snoc x xs)
  from snoc step_clock [of "run env xs ts" env x] show ?case
    by (simp add: run_snoc)
qed

lemma close_settled:
  "result (close env t s) \<noteq> None \<Longrightarrow> result s = None \<Longrightarrow> closed (close env t s) = Some t"
  by (simp add: close_def resolve_def log_effect_def emit_def Let_def split: if_splits)

lemma close_result_keeps:
  "result s = Some r \<Longrightarrow> result (close env t s) = Some r"
  by (simp add: close_def resolve_def log_effect_def emit_def Let_def)

lemma close_closed_le:
  assumes "closed s = Some c" and "c \<le> t"
  shows "\<exists>c'. closed (close env t s) = Some c' \<and> c' \<le> t"
  using assms by (simp add: close_def resolve_def log_effect_def emit_def Let_def)

lemma settled_close: "settled t s \<Longrightarrow> settled t (close env t s)"
proof (cases "result s")
  case None
  assume "settled t s"
  then have t: "t \<noteq> 0" by (simp add: settled_def)
  show ?thesis
  proof (cases "result (close env t s)")
    case n: None
    with t show ?thesis by (simp add: settled_def)
  next
    case (Some r)
    with close_settled [of env t s] None have "closed (close env t s) = Some t" by simp
    with t show ?thesis by (simp add: settled_def)
  qed
next
  case (Some r)
  assume a: "settled t s"
  with Some obtain c where c: "closed s = Some c" "c \<le> t" "t \<noteq> 0"
    by (auto simp add: settled_def split: option.splits)
  from close_closed_le [OF c(1,2)] obtain c' where "closed (close env t s) = Some c'" "c' \<le> t"
    by auto
  with c(3) show ?thesis
    by (simp add: settled_def)
qed

lemma settled_onEose:
  assumes "settled t s"
  shows "settled t (onEose env t u s)"
proof (rule onEose_cases)
  show "settled t (emit env ''eose'' (PUrl u) s)"
    using assms by (simp add: settled_def emit_keeps)
  show l2: "settled t (add_eose u (emit env ''eose'' (PUrl u) s))"
    using assms by (simp add: settled_def emit_keeps add_eose_keeps)
  then show "settled t (close env t (add_eose u (emit env ''eose'' (PUrl u) s)))"
    by (rule settled_close)
qed

lemma settled_tick: "0 < t \<Longrightarrow> settled t s \<Longrightarrow> settled (t + int d) s"
  by (auto simp add: settled_def split: option.splits)

lemma settled_step:
  "0 < fst ts \<Longrightarrow> settled (fst ts) (snd ts) \<Longrightarrow>
   settled (fst (step env ts x)) (snd (step env ts x))"
  by (cases ts; cases x)
    (simp_all add: settled_close settled_onEose settled_tick,
     simp_all add: settled_def onEvent_keeps on_keeps)

lemma settled_run:
  assumes "0 < fst ts" and "settled (fst ts) (snd ts)"
  shows "settled (fst (run env ops ts)) (snd (run env ops ts))"
proof (induction ops rule: rev_induct)
  case Nil
  show ?case using assms by (simp add: run_nil)
next
  case (snoc x xs)
  have "0 < fst (run env xs ts)"
    using assms(1) run_clock [of ts env xs] by simp
  with snoc show ?case
    by (simp add: run_snoc settled_step)
qed

lemma advance_filters:
  "filters (advance c os) = map (\<lambda>f. f\<lparr>since := Some c\<rparr>) (filters os)"
  by (simp add: advance_def)

lemma advance_match:
  assumes "c \<noteq> 0" and "matchFilters env (map (\<lambda>f. f\<lparr>since := Some c\<rparr>) fs) e"
  shows "c \<le> created_at e"
  using assms
  by (auto simp add: matchFilters_def matchFilter_def since_ok_def list_ex_iff)

lemma persistent_head:
  assumes "subscribePersistent env t scripts os = x # xs"
  shows "fst x = os \<and> opts_of (snd x) = os \<and> opened (snd x) = t"
proof (cases scripts)
  case Nil
  with assms show ?thesis by simp
next
  case (Cons script rest)
  show ?thesis
  proof (cases "subscribe env t os")
    case (Inl err)
    with assms Cons show ?thesis by simp
  next
    case (Inr s0)
    obtain t1 s1 where r: "run env script (t, s0) = (t1, s1)"
      by (cases "run env script (t, s0)")
    have "opts_of s1 = os" "opened s1 = t"
      using run_opts [of env script "(t, s0)"] run_opened [of env script "(t, s0)"] r
        subscribe_fresh [OF Inr] by simp_all
    with assms Cons Inr r show ?thesis
      by (auto split: option.splits)
  qed
qed

text \<open>
  C7. When the clock is past the epoch at the start, then for every epoch of the persistent
  loop that is followed by a further epoch: the epoch was closed at a time not after the
  clock reading at which the next epoch is opened, the moment of relaunch; the next epoch
  is opened with the filters of this epoch, each with its \<^verbatim>\<open>since\<close> set to what
  \<^verbatim>\<open>now()\<close> reads at that moment, and these are the filters its subscription works with;
  this cursor is not before the time at which the epoch was closed; and no event with a
  timestamp older than the cursor satisfies the filters of the next epoch.
\<close>

theorem persistent_cursor_advance:
  assumes "0 < t0" and "Suc n < length (subscribePersistent env t0 scripts os)"
  shows "\<exists>cl. closed (snd (subscribePersistent env t0 scripts os ! n)) = Some cl \<and>
           cl \<le> opened (snd (subscribePersistent env t0 scripts os ! Suc n)) \<and>
           opts_of (snd (subscribePersistent env t0 scripts os ! Suc n)) =
             fst (subscribePersistent env t0 scripts os ! Suc n) \<and>
           filters (fst (subscribePersistent env t0 scripts os ! Suc n)) =
             map (\<lambda>f. f\<lparr>since :=
                        Some (now (opened (snd (subscribePersistent env t0 scripts os ! Suc n))))\<rparr>)
               (filters (fst (subscribePersistent env t0 scripts os ! n))) \<and>
           cl \<le> now (opened (snd (subscribePersistent env t0 scripts os ! Suc n))) \<and>
           (\<forall>e. matchFilters env (filters (fst (subscribePersistent env t0 scripts os ! Suc n))) e
                 \<longrightarrow> now (opened (snd (subscribePersistent env t0 scripts os ! Suc n)))
                       \<le> created_at e)"
  using assms
proof (induction scripts arbitrary: t0 os n)
  case Nil
  then show ?case by simp
next
  case (Cons script rest)
  let ?E = "subscribePersistent env t0 (script # rest) os"
  from Cons.prems(2) obtain s0 where s0: "subscribe env t0 os = Inr s0"
    by (cases "subscribe env t0 os") simp_all
  obtain t1 s1 where r: "run env script (t0, s0) = (t1, s1)"
    by (cases "run env script (t0, s0)")
  from Cons.prems(2) s0 r obtain res where res: "result s1 = Some res"
    by (cases "result s1") simp_all
  let ?T = "subscribePersistent env t1 rest (advance (now t1) os)"
  have E: "?E = (os, s1) # ?T"
    using s0 r res by simp
  have t1: "0 < t1"
    using run_clock [of "(t0, s0)" env script] r Cons.prems(1) by simp
  show ?case
  proof (cases n)
    case 0
    from Cons.prems(2) E obtain x xs where T: "?T = x # xs"
      by (cases ?T) simp_all
    from persistent_head [OF T]
    have x: "fst x = advance (now t1) os" "opts_of (snd x) = advance (now t1) os"
        "opened (snd x) = t1"
      by simp_all
    have "settled t0 s0"
      using Cons.prems(1) subscribe_fresh [OF s0] by (simp add: settled_def)
    with settled_run [of "(t0, s0)" env script] r Cons.prems(1) have "settled t1 s1"
      by simp
    with res obtain cl where cl: "closed s1 = Some cl" "cl \<le> t1"
      by (auto simp add: settled_def split: option.splits)
    have m: "\<forall>e. matchFilters env (filters (advance (now t1) os)) e \<longrightarrow> now t1 \<le> created_at e"
      using t1 advance_match [of "now t1" env "filters os"]
      by (auto simp add: advance_filters now_def)
    have e0: "?E ! 0 = (os, s1)" and e1: "?E ! Suc 0 = x"
      by (simp_all only: E T nth_Cons_0 nth_Cons_Suc)
    have "closed (snd (?E ! 0)) = Some cl \<and> cl \<le> opened (snd (?E ! Suc 0)) \<and>
          opts_of (snd (?E ! Suc 0)) = fst (?E ! Suc 0) \<and>
          filters (fst (?E ! Suc 0)) =
            map (\<lambda>f. f\<lparr>since := Some (now (opened (snd (?E ! Suc 0))))\<rparr>)
              (filters (fst (?E ! 0))) \<and>
          cl \<le> now (opened (snd (?E ! Suc 0))) \<and>
          (\<forall>e. matchFilters env (filters (fst (?E ! Suc 0))) e
                \<longrightarrow> now (opened (snd (?E ! Suc 0))) \<le> created_at e)"
      unfolding e0 e1 using x cl m by (simp add: advance_filters) (simp add: now_def)
    then show ?thesis
      unfolding 0 by blast
  next
    case (Suc m)
    have len: "length ?E = Suc (length ?T)"
      by (simp only: E length_Cons)
    with Cons.prems(2) Suc have "Suc m < length ?T" by simp
    from Cons.IH [OF t1 this] have
      "\<exists>cl. closed (snd (?T ! m)) = Some cl \<and> cl \<le> opened (snd (?T ! Suc m)) \<and>
          opts_of (snd (?T ! Suc m)) = fst (?T ! Suc m) \<and>
          filters (fst (?T ! Suc m)) =
            map (\<lambda>f. f\<lparr>since := Some (now (opened (snd (?T ! Suc m))))\<rparr>)
              (filters (fst (?T ! m))) \<and>
          cl \<le> now (opened (snd (?T ! Suc m))) \<and>
          (\<forall>e. matchFilters env (filters (fst (?T ! Suc m))) e
                \<longrightarrow> now (opened (snd (?T ! Suc m))) \<le> created_at e)" .
    moreover have "?E ! Suc m = ?T ! m" "?E ! Suc (Suc m) = ?T ! Suc m"
      by (simp_all only: E nth_Cons_Suc)
    ultimately show ?thesis
      unfolding Suc by simp
  qed
qed

theorem persistent_cursor_advance_witness:
  "0 < (1000::int) \<and>
   Suc 0 < length (subscribePersistent scenario_env 1000 two_epochs scenario_opts) \<and>
   closed (snd (subscribePersistent scenario_env 1000 two_epochs scenario_opts ! 0)) = Some 1000 \<and>
   opened (snd (subscribePersistent scenario_env 1000 two_epochs scenario_opts ! Suc 0)) = 1005 \<and>
   filters (fst (subscribePersistent scenario_env 1000 two_epochs scenario_opts ! Suc 0)) =
     [\<lparr>kinds = Some [42], tag_e = Some [''channel-X''], since = Some 1005\<rparr>] \<and>
   \<not> matchFilters scenario_env
       (filters (fst (subscribePersistent scenario_env 1000 two_epochs scenario_opts ! Suc 0))) e1"
proof -
  have h0: "0 < (1000::int)"
    by simp
  have r1: "run scenario_env (scenario_ops @ [Tick 5]) (1000, scenario_sub) =
              (1005, snd (run scenario_env scenario_ops (1000, scenario_sub)))"
    by (simp add: run_append scenario_run) (simp add: run_def)
  have res: "result (snd (run scenario_env scenario_ops (1000, scenario_sub))) = Some []"
    and cl: "closed (snd (run scenario_env scenario_ops (1000, scenario_sub))) = Some 1000"
    by (simp_all add: scenario_run)
  obtain s0 where s0: "subscribe scenario_env 1005 (advance 1005 scenario_opts) = Inr s0"
    by (cases "subscribe scenario_env 1005 (advance 1005 scenario_opts)")
      (simp_all add: open_defs advance_def scenario_env_def scenario_opts_def Let_def)
  have E: "subscribePersistent scenario_env 1000 two_epochs scenario_opts =
             (scenario_opts, snd (run scenario_env scenario_ops (1000, scenario_sub))) #
             subscribePersistent scenario_env 1005 [scenario_ops] (advance 1005 scenario_opts)"
    by (simp add: two_epochs_def scenario_subscribe r1 res now_def)
  obtain x xs where T:
    "subscribePersistent scenario_env 1005 [scenario_ops] (advance 1005 scenario_opts) = x # xs"
    by (cases "subscribePersistent scenario_env 1005 [scenario_ops] (advance 1005 scenario_opts)")
      (simp_all add: s0 split: prod.splits option.splits)
  have len: "Suc 0 < length (subscribePersistent scenario_env 1000 two_epochs scenario_opts)"
    by (simp only: E T) simp
  have c0: "closed (snd (subscribePersistent scenario_env 1000 two_epochs scenario_opts ! 0)) =
              Some 1000"
    by (simp only: E nth_Cons_0 snd_conv cl)
  have hx: "fst x = advance 1005 scenario_opts" "opened (snd x) = 1005"
    using persistent_head [OF T] by simp_all
  have o1: "opened (snd (subscribePersistent scenario_env 1000 two_epochs scenario_opts ! Suc 0)) =
              1005"
    by (simp only: E T nth_Cons_0 nth_Cons_Suc hx)
  have f1: "filters (fst (subscribePersistent scenario_env 1000 two_epochs scenario_opts
                     ! Suc 0)) =
              [\<lparr>kinds = Some [42], tag_e = Some [''channel-X''], since = Some 1005\<rparr>]"
    by (simp only: E T nth_Cons_0 nth_Cons_Suc hx) (simp add: advance_def scenario_opts_def)
  have old: "created_at e1 = 100"
    by (simp add: e1_def)
  from persistent_cursor_advance [OF h0 len, unfolded o1] h0 len c0 o1 f1 old show ?thesis
    by (auto simp add: now_def)
qed

end
